theory Spec2Isabelle
  imports Complex_Main
begin

section \<open>Signal utilities of audlib (sig/util.py)\<close>

text \<open>
  The module computes on numpy arrays of IEEE doubles. Samples are modelled as exact
  reals (transform values as exact complex numbers): sums, quotients and square roots are
  not rounded, and no value overflows to an infinity or underflows to zero. Rounding is
  modelled where a decision of the program hangs on it: the product that \<open>sample\<close> rounds
  to an integer is the double product (\<open>round_double\<close>). Every place where the program
  raises is a branch returning \<open>Inl\<close>, and a division whose IEEE result is NaN or
  infinite, which no real number stands for, is the branch \<open>Inl NonFinite\<close>.
\<close>

datatype error =
  AssertionError | ValueError | ZeroDivisionError | IndexError | OverflowError | NonFinite

subsection \<open>The random source\<close>

text \<open>
  \<open>numpy.random\<close> is process-wide state. Its state is modelled as the sequence of
  uniform draws from [0, 1) it is going to deliver; a call consumes a prefix and returns
  the rest. \<open>uniform g\<close> says that every draw lies in [0, 1).
\<close>

type_synonym rng = "nat \<Rightarrow> real"

definition uniform :: "rng \<Rightarrow> bool" where
  "uniform g = (\<forall>i. 0 \<le> g i \<and> g i < 1)"

definition rand_random :: "rng \<Rightarrow> real \<times> rng" where
  "rand_random g = (g 0, \<lambda>i. g (Suc i))"

text \<open>\<open>rand.rand(num)\<close>: \<open>num\<close> draws; a negative dimension raises ValueError.\<close>

definition rand_rand :: "int \<Rightarrow> rng \<Rightarrow> (error + real list) \<times> rng" where
  "rand_rand num g =
     (if num < 0 then (Inl ValueError, g)
      else (Inr (map g [0..<nat num]), \<lambda>i. g (i + nat num)))"

subsection \<open>Array primitives of numpy\<close>

text \<open>
  \<open>np.linspace(start, stop, num, endpoint)\<close>: \<open>num\<close> points with step
  \<open>(stop - start) / div\<close>, where \<open>div\<close> is \<open>num - 1\<close> with the endpoint and \<open>num\<close>
  without. (With the endpoint numpy overwrites the last point by \<open>stop\<close>, which is the
  value the formula gives in exact arithmetic.)
\<close>

definition linspace :: "real \<Rightarrow> real \<Rightarrow> nat \<Rightarrow> bool \<Rightarrow> real list" where
  "linspace start stop num endpoint =
     (let dv = (if endpoint then num - 1 else num)
      in map (\<lambda>k. start + real k * ((stop - start) / real dv)) [0..<num])"

text \<open>
  \<open>numpy.fft.fft(h, n)\<close>: the input is cut or zero-padded to \<open>n\<close> points and
  transformed; \<open>n < 1\<close> raises ValueError.
\<close>

definition fft :: "real list \<Rightarrow> int \<Rightarrow> error + complex list" where
  "fft h n =
     (if n < 1 then Inl ValueError
      else let m = nat n; a = take m (h @ replicate (m - length h) 0)
           in Inr (map (\<lambda>j. \<Sum>k<m. complex_of_real (a ! k)
                                   * cis (- (2 * pi * real j * real k / real m)))
                       [0..<m]))"

text \<open>
  Assignment through a boolean mask, \<open>dst[mask] = v\<close> with \<open>v\<close> an array: numpy
  counts the selected positions; a \<open>v\<close> of length one is broadcast, any other length
  must equal the count, else ValueError. \<open>put_where\<close> writes the values in order at the
  selected positions.
\<close>

fun put_where :: "'a list \<Rightarrow> bool list \<Rightarrow> 'a list \<Rightarrow> 'a list" where
  "put_where (d # ds) (True # ms) (v # vs) = v # put_where ds ms vs"
| "put_where (d # ds) (False # ms) vs = d # put_where ds ms vs"
| "put_where ds ms vs = ds"

definition mask_assign :: "'a list \<Rightarrow> bool list \<Rightarrow> 'a list \<Rightarrow> error + 'a list" where
  "mask_assign dst msk v =
     (let cnt = length (filter (\<lambda>b. b) msk)
      in if length v \<noteq> 1 \<and> length v \<noteq> cnt then Inl ValueError
         else Inr (put_where dst msk (if length v = 1 then replicate cnt (hd v) else v)))"

text \<open>\<open>dst[mask] = c\<close> with a scalar \<open>c\<close>.\<close>

definition mask_fill :: "'a list \<Rightarrow> bool list \<Rightarrow> 'a \<Rightarrow> 'a list" where
  "mask_fill dst msk c = map2 (\<lambda>d b. if b then c else d) dst msk"

text \<open>\<open>np.tile(n, k)\<close>: \<open>k\<close> copies of \<open>n\<close> in a row.\<close>

definition tile :: "'a list \<Rightarrow> nat \<Rightarrow> 'a list" where
  "tile n k = concat (replicate k n)"

text \<open>\<open>x.dot(y)\<close> for two vectors of one length.\<close>

definition dot :: "real list \<Rightarrow> real list \<Rightarrow> real" where
  "dot x y = sum_list (map2 (*) x y)"

text \<open>\<open>np.around\<close>: to the nearest integer, a tie to the even neighbour.\<close>

definition around :: "real \<Rightarrow> int" where
  "around r =
     (let f = \<lfloor>r\<rfloor>; d = r - of_int f
      in if d < 1 / 2 then f else if 1 / 2 < d then f + 1 else if even f then f else f + 1)"

text \<open>
  The double nearest to a real, a tie to the even significand: with \<open>2 ^ e \<le> |v| < 2 ^ (e + 1)\<close>
  the doubles around \<open>v\<close> are the multiples of \<open>2 ^ (e - 52)\<close>. (The exponent is not
  bounded: the values rounded here are far from the ends of the range of doubles.)
  \<open>double_of_int\<close> is the conversion of a Python int that meets a float array, \<open>fmul\<close> the
  product of two doubles.
\<close>

definition round_double :: "real \<Rightarrow> real" where
  "round_double v =
     (if v = 0 then 0
      else let e = \<lfloor>log 2 \<bar>v\<bar>\<rfloor>; u = 2 powr (of_int e - 52)
           in of_int (around (v / u)) * u)"

definition double_of_int :: "int \<Rightarrow> real" where
  "double_of_int i = round_double (of_int i)"

definition fmul :: "real \<Rightarrow> real \<Rightarrow> real" where
  "fmul a b = round_double (a * b)"

text \<open>The slice \<open>xs[a:b]\<close>: a negative bound counts from the end, both are clipped.\<close>

definition py_slice :: "'a list \<Rightarrow> int \<Rightarrow> int \<Rightarrow> 'a list" where
  "py_slice xs a b =
     (let n = int (length xs);
          clip = (\<lambda>i. if i < 0 then max 0 (i + n) else min i n);
          lo = clip a; hi = clip b
      in take (nat (hi - lo)) (drop (nat lo) xs))"

text \<open>Indexing \<open>xs[i]\<close>: a negative index counts from the end; out of range raises.\<close>

definition py_index :: "'a list \<Rightarrow> int \<Rightarrow> error + 'a" where
  "py_index xs i =
     (let n = int (length xs); j = (if i < 0 then n + i else i)
      in if 0 \<le> j \<and> j < n then Inr (xs ! nat j) else Inl IndexError)"

text \<open>
  \<open>np.digitize(v, bins)\<close> for increasing \<open>bins\<close>: the number of bin edges that are
  \<open>\<le> v\<close> (the index \<open>i\<close> with \<open>bins[i-1] \<le> v < bins[i]\<close>).
\<close>

definition digitize :: "real \<Rightarrow> real list \<Rightarrow> nat" where
  "digitize v bins = length (filter (\<lambda>b. b \<le> v) bins)"

text \<open>The first failure of a list of results, or all the values.\<close>

fun collect :: "(error + 'a) list \<Rightarrow> error + 'a list" where
  "collect [] = Inr []"
| "collect (Inl e # rs) = Inl e"
| "collect (Inr v # rs) = (case collect rs of Inl e \<Rightarrow> Inl e | Inr vs \<Rightarrow> Inr (v # vs))"

text \<open>\<open>np.max(np.abs(x))\<close> of a non-empty array.\<close>

definition peak :: "real list \<Rightarrow> real" where
  "peak x = Max (set (map abs x))"

subsection \<open>Frequency responses\<close>

definition firfreqz :: "real list \<Rightarrow> int \<Rightarrow> error + real list \<times> complex list" where
  "firfreqz h nfft =
     (let ww = linspace 0 2 (nat nfft) False
      in case fft h nfft of Inl e \<Rightarrow> Inl e | Inr hh \<Rightarrow> Inr (ww, hh))"

text \<open>
  \<open>hh[~zeros] = 1 / hh_inv\<close> assigns the whole array of reciprocals through the mask
  of the non-zero bins; \<open>hh[zeros] = ceiling\<close> then fills the zero bins. (The reciprocal
  of a zero bin is never stored: the mask does not select it.)
\<close>

definition iirfreqz :: "real list \<Rightarrow> int \<Rightarrow> real \<Rightarrow> error + real list \<times> complex list" where
  "iirfreqz h nfft ceil =
     (let ww = linspace 0 2 (nat nfft) False
      in case fft h nfft of
           Inl e \<Rightarrow> Inl e
         | Inr hh_inv \<Rightarrow>
             let hh0 = replicate (length hh_inv) 0;
                 zeros = map (\<lambda>z. z = 0) hh_inv
             in (case mask_assign hh0 (map Not zeros) (map (\<lambda>z. 1 / z) hh_inv) of
                   Inl e \<Rightarrow> Inl e
                 | Inr hh1 \<Rightarrow> Inr (ww, mask_fill hh1 zeros (complex_of_real ceil))))"

definition FREQZ_CEILING :: real where
  "FREQZ_CEILING = 100000"

definition freqz :: "real list \<Rightarrow> real list \<Rightarrow> int \<Rightarrow> real \<Rightarrow> error + real list \<times> complex list" where
  "freqz numerator demonimator nfft ceil =
     (case firfreqz numerator nfft of
        Inl e \<Rightarrow> Inl e
      | Inr (ww, hh_numer) \<Rightarrow>
          (case iirfreqz demonimator nfft ceil of
             Inl e \<Rightarrow> Inl e
           | Inr (uu, hh_denom) \<Rightarrow> Inr (ww, map2 (*) hh_numer hh_denom)))"

subsection \<open>nextpow2\<close>

text \<open>Python's \<open>int.bit_length\<close>: the number of binary digits of the absolute value.\<close>

function bit_length :: "int \<Rightarrow> nat" where
  "bit_length i = (if i = 0 then 0 else Suc (bit_length (\<bar>i\<bar> div 2)))"
  by pat_completeness auto
termination
  by (relation "measure (\<lambda>i. nat \<bar>i\<bar>)") auto

declare bit_length.simps [simp del]

text \<open>\<open>1 << (n-1).bit_length()\<close>\<close>

definition nextpow2 :: "int \<Rightarrow> int" where
  "nextpow2 n = push_bit (bit_length (n - 1)) 1"

subsection \<open>Sampling segments\<close>

text \<open>
  \<open>sample(x, length, num)\<close>; the optional printing of each segment's bounds is left
  out. The result comes with the state of the random source after the call. The offsets
  are \<open>np.around\<close> of the array of draws times the int \<open>start_idx_max\<close>: each product is
  a product of doubles, rounded to a double before it is rounded to an integer.
\<close>

definition sample :: "'a list \<Rightarrow> int \<Rightarrow> int \<Rightarrow> rng \<Rightarrow> (error + 'a list list) \<times> rng" where
  "sample x seglen num g =
     (if \<not> int (length x) \<ge> seglen then (Inl AssertionError, g)
      else let start_idx_max = int (length x) - seglen
           in case rand_rand num g of
                (Inl e, g') \<Rightarrow> (Inl e, g')
              | (Inr us, g') \<Rightarrow>
                  (Inr (map (\<lambda>u. let i = around (fmul u (double_of_int start_idx_max))
                                  in py_slice x i (i + seglen)) us), g'))"

subsection \<open>Additive noise\<close>

text \<open>
  The SNR argument is a float that may be one of the two infinities, or \<open>None\<close>:
  \<open>snr option\<close>, with \<open>None\<close> for the argument left out.
\<close>

datatype snr = PosInf | NegInf | Db real

text \<open>
  \<open>10 ** e\<close> on Python floats raises OverflowError when the power does not round to a
  finite double, that is from \<open>2 ^ 1024 - 2 ^ 970\<close> on (half an ulp above the largest
  double); the test is made on the exact power.
\<close>

definition DBL_OVERFLOW :: real where
  "DBL_OVERFLOW = 2 ^ 1024 - 2 ^ 970"

definition py_pow10 :: "real \<Rightarrow> error + real" where
  "py_pow10 e = (if DBL_OVERFLOW \<le> 10 powr e then Inl OverflowError else Inr (10 powr e))"

text \<open>
  \<open>additive_noise(x, n, snr)\<close>. Tiling divides the two lengths, so an empty noise under
  a non-empty signal raises ZeroDivisionError. The power \<open>10 ** (snr / 10.)\<close> may raise
  OverflowError. A zero noise energy makes the scale infinite or NaN, and with it every
  sample of a non-empty result. The energies, the quotients and the scaled samples are
  exact reals: where one of them leaves the range of doubles the program computes with an
  infinity or a zero instead, which the model does not follow.
\<close>

definition additive_noise :: "real list \<Rightarrow> real list \<Rightarrow> snr option \<Rightarrow> rng \<Rightarrow> (error + real list) \<times> rng" where
  "additive_noise x n snr g =
     (if snr = Some PosInf then (Inr (replicate (length x) 0), g)
      else let xlen = length x; nlen = length n
           in if xlen > nlen \<and> nlen = 0 then (Inl ZeroDivisionError, g)
              else let nn = (if xlen > nlen
                             then take xlen (tile n (nat \<lceil>real xlen / real nlen\<rceil>))
                             else take xlen n)
                   in if snr = Some NegInf then (Inr nn, g)
                      else let (db, g') = (case snr of
                                             Some (Db d) \<Rightarrow> (d, g)
                                           | _ \<Rightarrow> (let (u, g1) = rand_random g
                                                    in ((u - 0.25) * 20, g1)));
                               xe = dot x x;
                               ne = dot nn nn
                           in case py_pow10 (db / 10) of
                                Inl e \<Rightarrow> (Inl e, g')
                              | Inr p \<Rightarrow>
                                  if nn \<noteq> [] \<and> ne = 0 then (Inl NonFinite, g')
                                  else let nscale = sqrt (xe / p / ne)
                                       in (Inr (map (\<lambda>v. nscale * v) nn), g'))"

text \<open>
  A value that a computation on doubles follows up to rounding: zero, or of a magnitude
  well inside the range of normal doubles (which ends at about \<open>2 ^ -1022\<close> and
  \<open>2 ^ 1024\<close>).
\<close>

definition double_range :: "real \<Rightarrow> bool" where
  "double_range v = (v = 0 \<or> (1 / 2 ^ 1000 \<le> \<bar>v\<bar> \<and> \<bar>v\<bar> \<le> 2 ^ 1000))"

definition add_noise :: "real list \<Rightarrow> real list \<Rightarrow> snr option \<Rightarrow> rng \<Rightarrow> (error + real list) \<times> rng" where
  "add_noise x n snr g =
     (case additive_noise x n snr g of
        (noise, g') \<Rightarrow>
          if snr = Some NegInf then (noise, g')
          else (case noise of
                  Inl e \<Rightarrow> (Inl e, g')
                | Inr ns \<Rightarrow> (Inr (map2 (+) x ns), g')))"

subsection \<open>Normalisation and quantisation\<close>

text \<open>
  \<open>normalize(x)\<close> returns a new array. The maximum of an empty array raises
  ValueError; a zero peak divides zero by zero.
\<close>

definition normalize_sig :: "real list \<Rightarrow> error + real list" where
  "normalize_sig x =
     (if x = [] then Inl ValueError
      else if peak x = 0 then Inl NonFinite
      else Inr (map (\<lambda>v. v / peak x) x))"

text \<open>
  \<open>quantize(x, n)\<close> divides \<open>x\<close> in place (\<open>x /= ...\<close>), so the caller's array is part
  of the state: a store maps the address of an array to its contents, the function takes
  the address of \<open>x\<close> and returns the store after the call with its result. After the
  call an array may hold NaN: with a zero peak every sample is zero and is overwritten by
  \<open>0 / 0\<close>. \<open>np.digitize\<close> puts NaN behind the last edge, and the lookup of its level
  raises IndexError. The store keeps the arrays apart: an array that shares its buffer
  with \<open>x\<close> (a view, or the base of \<open>x\<close>) changes with \<open>x\<close> in the program and is not
  modelled.
\<close>

datatype cell = Val real | NaN

type_synonym store = "nat \<Rightarrow> real list"

type_synonym cells = "nat \<Rightarrow> cell list"

definition digitize_cell :: "cell \<Rightarrow> real list \<Rightarrow> nat" where
  "digitize_cell c bins = (case c of Val v \<Rightarrow> digitize v bins | NaN \<Rightarrow> length bins)"

definition quantize :: "store \<Rightarrow> nat \<Rightarrow> nat \<Rightarrow> cells \<times> (error + real list)" where
  "quantize st a n =
     (let x = st a;
          old = (\<lambda>b. map Val (st b))
      in if x = [] then (old, Inl ValueError)
         else let x' = map (\<lambda>v. if peak x = 0 then NaN else Val (v / peak x)) x;
                  st' = old (a := x');
                  bins = linspace (- 1) 1 (2 ^ n + 1) True;
                  qvals = map2 (\<lambda>lo hi. (lo + hi) / 2) (butlast bins) (tl bins);
                  bins' = bins [length bins - 1 := 1.01]
              in (st', collect (map (\<lambda>c. py_index qvals (int (digitize_cell c bins') - 1)) x')))"

section \<open>Properties\<close>

subsection \<open>nextpow2\<close>

lemma bit_length_step: "i \<noteq> 0 \<Longrightarrow> bit_length i = Suc (bit_length (\<bar>i\<bar> div 2))"
  by (subst bit_length.simps) simp

lemma bit_length_zero: "bit_length 0 = 0"
  by (subst bit_length.simps) simp

lemma bit_length_upper: "0 \<le> m \<Longrightarrow> m < 2 ^ bit_length m"
proof (induction m rule: bit_length.induct)
  case (1 i)
  show ?case
  proof (cases "i = 0")
    case True then show ?thesis by (simp add: bit_length_zero)
  next
    case False
    define p :: int where "p = 2 ^ bit_length (\<bar>i\<bar> div 2)"
    from 1 False have "\<bar>i\<bar> div 2 < p" by (simp add: p_def)
    with 1(2) have "i < 2 * p" by presburger
    then show ?thesis by (simp add: bit_length_step [OF False] p_def)
  qed
qed

lemma bit_length_lower: "0 < m \<Longrightarrow> 2 ^ (bit_length m - 1) \<le> m"
proof (induction m rule: bit_length.induct)
  case (1 i)
  from 1(2) have nz: "i \<noteq> 0" by simp
  show ?case
  proof (cases "\<bar>i\<bar> div 2 = 0")
    case True
    then show ?thesis using 1(2) by (simp add: bit_length_step [OF nz] bit_length_zero)
  next
    case False
    with 1(2) have pos: "0 < \<bar>i\<bar> div 2" by presburger
    define p :: int where "p = 2 ^ (bit_length (\<bar>i\<bar> div 2) - 1)"
    from 1(1) [OF nz pos] have ih: "p \<le> \<bar>i\<bar> div 2" by (simp add: p_def)
    have "bit_length (\<bar>i\<bar> div 2) = Suc (bit_length (\<bar>i\<bar> div 2) - 1)"
      by (simp add: bit_length_step [OF False])
    then have "2 ^ (bit_length i - 1) = 2 * p"
      by (simp add: bit_length_step [OF nz] p_def) (metis power_Suc)
    moreover from ih 1(2) have "2 * p \<le> i" by presburger
    ultimately show ?thesis by simp
  qed
qed

lemma nextpow2_eq: "nextpow2 n = 2 ^ bit_length (n - 1)"
  by (simp add: nextpow2_def push_bit_eq_mult)

text \<open>
  Claim C8. For every positive integer \<open>n\<close>, \<open>nextpow2 n\<close> is a power of two, is at
  least \<open>n\<close>, is below every other power of two that is at least \<open>n\<close>, and is \<open>n\<close>
  itself when \<open>n\<close> is a power of two; \<open>nextpow2 5 = 8\<close> and \<open>nextpow2 8 = 8\<close>.
\<close>

theorem nextpow2_smallest_power:
  assumes "1 \<le> n"
  shows "(\<exists>k. nextpow2 n = 2 ^ k) \<and> n \<le> nextpow2 n
    \<and> (\<forall>j. n \<le> 2 ^ j \<longrightarrow> nextpow2 n \<le> 2 ^ j)
    \<and> (\<forall>k. n = 2 ^ k \<longrightarrow> nextpow2 n = n)
    \<and> nextpow2 5 = 8 \<and> nextpow2 8 = 8"
proof -
  let ?k = "bit_length (n - 1)"
  have np: "nextpow2 n = 2 ^ ?k" by (rule nextpow2_eq)
  from assms have "n - 1 < 2 ^ ?k" by (intro bit_length_upper) simp
  then have ge: "n \<le> nextpow2 n" by (simp add: np)
  have least: "nextpow2 n \<le> 2 ^ j" if nj: "n \<le> 2 ^ j" for j
  proof (cases "n = 1")
    case True
    then have "?k = 0" by (simp add: bit_length_zero)
    then show ?thesis by (simp add: np)
  next
    case False
    with assms have pos: "0 < n - 1" by simp
    from bit_length_lower [OF pos] nj have "(2::int) ^ (?k - 1) < 2 ^ j" by linarith
    then have "?k - 1 < j" by simp
    then have "?k \<le> j" by simp
    then show ?thesis by (simp add: np)
  qed
  have idem: "nextpow2 n = n" if "n = 2 ^ k" for k
  proof -
    from that have "n \<le> 2 ^ k" by simp
    from least [OF this] that ge show ?thesis by simp
  qed
  have "nextpow2 5 = 8" "nextpow2 8 = 8"
    by (simp_all add: nextpow2_eq bit_length_step bit_length_zero)
  with np ge least idem show ?thesis by blast
qed

theorem nextpow2_smallest_power_witness:
  "(1::int) \<le> 5 \<and> (\<exists>k. nextpow2 5 = 2 ^ k) \<and> 5 \<le> nextpow2 5 \<and> nextpow2 5 \<le> 2 ^ 3 \<and> nextpow2 8 = 8"
proof -
  have h: "(1::int) \<le> 5" by simp
  have j: "(5::int) \<le> 2 ^ 3" by simp
  from nextpow2_smallest_power [OF h] j
  have "(\<exists>k. nextpow2 5 = 2 ^ k) \<and> 5 \<le> nextpow2 5 \<and> nextpow2 5 \<le> 2 ^ 3 \<and> nextpow2 8 = 8"
    by blast
  with h show ?thesis by blast
qed

subsection \<open>Additive noise at the two infinite SNRs\<close>

lemma map2_add_zeros: "map2 (+) xs (replicate (length xs) (0::real)) = xs"
  by (induction xs) simp_all

text \<open>
  Claim C5. For every signal \<open>s\<close> and every noise \<open>n\<close> (of any length, empty included),
  \<open>add_noise\<close> at SNR \<open>+\<infinity>\<close> returns \<open>s\<close> itself: the additive term is the all-zero
  sequence of the length of \<open>s\<close>, returned before the noise is looked at, and the random
  source is not touched.
\<close>

theorem add_noise_posinf_identity:
  "add_noise s n (Some PosInf) g = (Inr s, g)
   \<and> additive_noise s n (Some PosInf) g = (Inr (replicate (length s) 0), g)"
  by (simp add: add_noise_def additive_noise_def map2_add_zeros)

lemma length_tile: "length (tile n k) = k * length n"
  by (induction k) (simp_all add: tile_def)

lemma tile_Suc: "tile n (Suc k) = n @ tile n k"
  by (simp add: tile_def)

lemma nth_tile: "i < k * length n \<Longrightarrow> tile n k ! i = n ! (i mod length n)"
proof (induction k arbitrary: i)
  case 0
  then show ?case by simp
next
  case (Suc k)
  show ?case
  proof (cases "i < length n")
    case True
    then show ?thesis by (simp add: tile_Suc nth_append)
  next
    case False
    with Suc.prems have "i - length n < k * length n" by simp
    from Suc.IH [OF this] False show ?thesis
      by (simp add: tile_Suc nth_append le_mod_geq)
  qed
qed

lemma tile_count_covers:
  assumes "0 < nlen"
  shows "xlen \<le> nat \<lceil>real xlen / real nlen\<rceil> * nlen"
proof -
  have "real xlen / real nlen \<le> of_int \<lceil>real xlen / real nlen\<rceil>" by (rule le_of_int_ceiling)
  then have "real xlen / real nlen * real nlen \<le> of_int \<lceil>real xlen / real nlen\<rceil> * real nlen"
    by (rule mult_right_mono) simp
  with assms have "real xlen \<le> of_int \<lceil>real xlen / real nlen\<rceil> * real nlen"
    by simp
  moreover have "0 \<le> \<lceil>real xlen / real nlen\<rceil>"
  proof -
    have "0 \<le> real xlen / real nlen" by simp
    then have "- 1 < real xlen / real nlen" by linarith
    then show ?thesis by (simp only: zero_le_ceiling)
  qed
  ultimately have "real xlen \<le> real (nat \<lceil>real xlen / real nlen\<rceil> * nlen)" by simp
  then show ?thesis by (simp only: of_nat_le_iff)
qed

text \<open>The noise after the length adjustment of \<open>additive_noise\<close>.\<close>

lemma adjusted_noise:
  fixes x n :: "'a list"
  assumes "n \<noteq> []"
  defines "nn \<equiv> (if length x > length n
                   then take (length x) (tile n (nat \<lceil>real (length x) / real (length n)\<rceil>))
                   else take (length x) n)"
  shows "length nn = length x" and "\<forall>i<length x. nn ! i = n ! (i mod length n)"
proof -
  from assms(1) have pos: "0 < length n" by simp
  note cover = tile_count_covers [OF pos, of "length x"]
  show "length nn = length x"
    using cover by (simp add: nn_def length_tile)
  show "\<forall>i<length x. nn ! i = n ! (i mod length n)"
  proof (intro allI impI)
    fix i assume i: "i < length x"
    show "nn ! i = n ! (i mod length n)"
    proof (cases "length x > length n")
      case True
      from i cover have "i < nat \<lceil>real (length x) / real (length n)\<rceil> * length n" by simp
      from nth_tile [OF this] i True show ?thesis by (simp add: nn_def)
    next
      case False
      with i show ?thesis by (simp add: nn_def)
    qed
  qed
qed

text \<open>
  Claim C3. For a non-empty signal \<open>s\<close> and a non-empty noise \<open>n\<close>, \<open>add_noise\<close> at SNR
  \<open>-\<infinity>\<close> returns the length-adjusted noise and adds nothing: \<open>n\<close> tiled and cut to
  the length of \<open>s\<close> when \<open>s\<close> is longer, \<open>n\<close> cut to that length otherwise. The result
  has the length of \<open>s\<close>, its sample \<open>i\<close> is sample \<open>i mod length n\<close> of the noise, and
  any signal of the same length gives the same result.
\<close>

theorem add_noise_neginf_is_adjusted_noise:
  assumes "s \<noteq> []" and "n \<noteq> []"
  shows "\<exists>r. fst (add_noise s n (Some NegInf) g) = Inr r
           \<and> r = (if length s > length n
                  then take (length s) (tile n (nat \<lceil>real (length s) / real (length n)\<rceil>))
                  else take (length s) n)
           \<and> length r = length s
           \<and> (\<forall>i<length s. r ! i = n ! (i mod length n))
           \<and> (\<forall>s'. length s' = length s \<longrightarrow> fst (add_noise s' n (Some NegInf) g) = Inr r)"
proof -
  define adj where "adj = (\<lambda>x::real list. if length x > length n
                  then take (length x) (tile n (nat \<lceil>real (length x) / real (length n)\<rceil>))
                  else take (length x) n)"
  from assms(2) have res: "fst (add_noise x n (Some NegInf) g) = Inr (adj x)" for x
    by (simp add: add_noise_def additive_noise_def Let_def adj_def)
  have len: "length (adj s) = length s"
    unfolding adj_def by (rule adjusted_noise(1) [OF assms(2)])
  have nth: "\<forall>i<length s. adj s ! i = n ! (i mod length n)"
    unfolding adj_def by (rule adjusted_noise(2) [OF assms(2)])
  have indep: "\<forall>s'. length s' = length s \<longrightarrow> fst (add_noise s' n (Some NegInf) g) = Inr (adj s)"
  proof (intro allI impI)
    fix s' :: "real list"
    assume "length s' = length s"
    then have "adj s' = adj s" by (simp add: adj_def)
    with res [of s'] show "fst (add_noise s' n (Some NegInf) g) = Inr (adj s)" by simp
  qed
  have shape: "adj s = (if length s > length n
                  then take (length s) (tile n (nat \<lceil>real (length s) / real (length n)\<rceil>))
                  else take (length s) n)"
    by (simp add: adj_def)
  show ?thesis
    by (rule exI [of _ "adj s"]) (intro conjI res shape len nth indep)
qed

theorem add_noise_neginf_is_adjusted_noise_witness:
  "[1, 2, 3, 4, 5] \<noteq> ([]::real list) \<and> [7, 8] \<noteq> ([]::real list)
   \<and> fst (add_noise [1, 2, 3, 4, 5] [7, 8] (Some NegInf) (\<lambda>i. 1 / 2)) = Inr [7, 8, 7, 8, 7]
   \<and> fst (add_noise [0, 0, 0, 0, 0] [7, 8] (Some NegInf) (\<lambda>i. 1 / 2)) = Inr [7, 8, 7, 8, 7]"
proof -
  have a: "[1, 2, 3, 4, 5] \<noteq> ([]::real list)" and b: "[7, 8] \<noteq> ([]::real list)" by simp_all
  have "fst (add_noise [1, 2, 3, 4, 5] [7, 8] (Some NegInf) (\<lambda>i. 1 / 2)) = Inr [7, 8, 7, 8, 7]
      \<and> fst (add_noise [0, 0, 0, 0, 0] [7, 8] (Some NegInf) (\<lambda>i. 1 / 2)) = Inr [7, 8, 7, 8, 7]"
    using add_noise_neginf_is_adjusted_noise [OF a b, of "\<lambda>i. 1 / 2"]
  proof (elim exE conjE)
    fix r
    assume r: "fst (add_noise [1, 2, 3, 4, 5] [7, 8] (Some NegInf) (\<lambda>i. 1 / 2)) = Inr r"
      and v: "r = (if length [7, 8::real] < length [1, 2, 3, 4, 5::real]
                  then take (length [1, 2, 3, 4, 5::real])
                    (tile [7, 8] (nat \<lceil>real (length [1, 2, 3, 4, 5::real]) / real (length [7, 8::real])\<rceil>))
                  else take (length [1, 2, 3, 4, 5::real]) [7, 8])"
      and i: "\<forall>s'. length s' = length [1, 2, 3, 4, 5::real]
                \<longrightarrow> fst (add_noise s' [7, 8] (Some NegInf) (\<lambda>i. 1 / 2)) = Inr r"
    from v have rv: "r = [7, 8, 7, 8, 7]" by (simp add: tile_def eval_nat_numeral)
    from i have "length [0, 0, 0, 0, 0::real] = length [1, 2, 3, 4, 5::real]
        \<longrightarrow> fst (add_noise [0, 0, 0, 0, 0] [7, 8] (Some NegInf) (\<lambda>i. 1 / 2)) = Inr r"
      by (rule spec)
    then have "fst (add_noise [0, 0, 0, 0, 0] [7, 8] (Some NegInf) (\<lambda>i. 1 / 2)) = Inr r" by simp
    with r rv show ?thesis by simp
  qed
  with a b show ?thesis by (intro conjI) simp_all
qed

subsection \<open>Peak normalisation\<close>

lemma peak_ge: "v \<in> set x \<Longrightarrow> \<bar>v\<bar> \<le> peak x"
  by (simp add: peak_def)

lemma peak_attained: "x \<noteq> [] \<Longrightarrow> \<exists>v\<in>set x. \<bar>v\<bar> = peak x"
proof -
  assume "x \<noteq> []"
  then have "Max (abs ` set x) \<in> abs ` set x" by (intro Max_in) simp_all
  then show ?thesis by (auto simp add: peak_def)
qed

lemma peak_nonneg: "x \<noteq> [] \<Longrightarrow> 0 \<le> peak x"
  using peak_attained [of x] by force

lemma peak_scaled:
  assumes "x \<noteq> []" and "peak x \<noteq> 0"
  shows "peak (map (\<lambda>v. v / peak x) x) = 1"
proof -
  define p where "p = peak x"
  from assms peak_nonneg [of x] have pos: "0 < p" by (simp add: p_def)
  have "Max (set (map abs (map (\<lambda>v. v / p) x))) = 1"
  proof (rule Max_eqI)
    show "finite (set (map abs (map (\<lambda>v. v / p) x)))" by (rule finite_set)
    show "y \<le> 1" if "y \<in> set (map abs (map (\<lambda>v. v / p) x))" for y
    proof -
      from that obtain v where v: "v \<in> set x" and y: "y = \<bar>v / p\<bar>" by auto
      from peak_ge [OF v] pos show ?thesis by (simp add: y p_def)
    qed
    from peak_attained [OF assms(1)] obtain v where v: "v \<in> set x" and "\<bar>v\<bar> = p"
      unfolding p_def by blast
    with pos have "\<bar>v / p\<bar> = 1" by simp
    with v show "1 \<in> set (map abs (map (\<lambda>v. v / p) x))" by force
  qed
  then have "peak (map (\<lambda>v. v / p) x) = 1" by (simp only: peak_def)
  then show ?thesis by (simp only: p_def)
qed

text \<open>
  Claim C10. Peak normalisation is idempotent: for a non-empty signal \<open>x\<close> whose peak
  (largest absolute sample) is not zero, \<open>normalize x\<close> returns a signal of peak exactly
  1, and normalising that signal again returns it unchanged.
\<close>

theorem normalize_idempotent:
  assumes "x \<noteq> []" and "peak x \<noteq> 0"
  shows "\<exists>y. normalize_sig x = Inr y \<and> y = map (\<lambda>v. v / peak x) x
           \<and> peak y = 1 \<and> normalize_sig y = Inr y"
proof -
  let ?y = "map (\<lambda>v. v / peak x) x"
  from assms have r: "normalize_sig x = Inr ?y" by (simp add: normalize_sig_def)
  have p: "peak ?y = 1" by (rule peak_scaled [OF assms])
  from assms(1) have ne: "?y \<noteq> []" by simp
  have "normalize_sig ?y = Inr (map (\<lambda>v. v / peak ?y) ?y)"
    using ne p by (simp only: normalize_sig_def if_False one_neq_zero)
  also have "map (\<lambda>v. v / peak ?y) ?y = ?y" by (simp only: p) simp
  finally have i: "normalize_sig ?y = Inr ?y" .
  show ?thesis by (rule exI [of _ ?y]) (intro conjI r refl p i)
qed

theorem normalize_idempotent_witness:
  "[2, - 4, 1] \<noteq> ([]::real list) \<and> peak [2, - 4, 1] \<noteq> 0
   \<and> normalize_sig [2, - 4, 1] = Inr [1 / 2, - 1, 1 / 4]
   \<and> peak [1 / 2, - 1, 1 / 4] = 1
   \<and> normalize_sig [1 / 2, - 1, 1 / 4] = Inr [1 / 2, - 1, 1 / 4]"
proof -
  have a: "[2, - 4, 1] \<noteq> ([]::real list)" by simp
  have pk: "peak [2, - 4, 1] = 4" by (simp add: peak_def)
  then have b: "peak [2, - 4, 1] \<noteq> 0" by simp
  have m: "map (\<lambda>v. v / peak [2, - 4, 1]) [2, - 4, 1] = [1 / 2, - 1, 1 / 4]"
    by (simp add: pk)
  from normalize_idempotent [OF a b] obtain y
    where 1: "normalize_sig [2, - 4, 1] = Inr y"
      and 2: "y = map (\<lambda>v. v / peak [2, - 4, 1]) [2, - 4, 1]"
      and 3: "peak y = 1" and 4: "normalize_sig y = Inr y"
    by blast
  from 2 m have "y = [1 / 2, - 1, 1 / 4]" by (simp only:)
  with 1 3 4
  have "normalize_sig [2, - 4, 1] = Inr [1 / 2, - 1, 1 / 4]
      \<and> peak [1 / 2, - 1, 1 / 4] = 1
      \<and> normalize_sig [1 / 2, - 1, 1 / 4] = Inr [1 / 2, - 1, 1 / 4]"
    by (simp only:) 
  with a b show ?thesis by (intro conjI) simp_all
qed

subsection \<open>The in-place division of quantize\<close>

lemma quantize_store:
  assumes "st a = x" and "x \<noteq> []" and "peak x \<noteq> 0"
  shows "fst (quantize st a n) a = map (\<lambda>v. Val (v / peak x)) x"
  using assms by (simp add: quantize_def Let_def)

text \<open>NaN is counted behind every edge, one place beyond the last level.\<close>

lemma nan_level_raises:
  "py_index (map2 f (butlast B) (tl B)) (int (digitize_cell NaN (B [length B - 1 := c])) - 1)
   = Inl IndexError"
proof (cases "B = []")
  case True
  then show ?thesis by (simp add: py_index_def Let_def digitize_cell_def)
next
  case False
  then have "int (length B - 1) = int (length B) - 1" by (simp add: Suc_leI)
  then show ?thesis by (simp add: py_index_def Let_def digitize_cell_def)
qed

lemma quantize_zero_peak:
  assumes "st a = x" and "x \<noteq> []" and "peak x = 0"
  shows "fst (quantize st a n) a = replicate (length x) NaN"
    and "snd (quantize st a n) = Inl IndexError"
proof -
  define B where "B = linspace (- 1) 1 (2 ^ n + 1) True"
  define Q where "Q = map2 (\<lambda>lo hi. (lo + hi) / 2) (butlast B) (tl B)"
  define B' where "B' = B [length B - 1 := 1.01]"
  from assms show "fst (quantize st a n) a = replicate (length x) NaN"
    by (simp add: quantize_def Let_def map_replicate_const)
  from assms have q: "snd (quantize st a n) =
      collect (map (\<lambda>c. py_index Q (int (digitize_cell c B') - 1)) (map (\<lambda>v. NaN) x))"
    unfolding B'_def Q_def B_def by (simp add: quantize_def Let_def)
  have idx: "py_index Q (int (digitize_cell NaN B') - 1) = Inl IndexError"
    unfolding Q_def B'_def by (rule nan_level_raises)
  from assms(2) obtain v xs where x: "x = v # xs" by (cases x) simp_all
  show "snd (quantize st a n) = Inl IndexError"
    by (simp add: q x idx)
qed

lemma div_same_iff: "p \<noteq> 0 \<Longrightarrow> v / p = v \<longleftrightarrow> v = 0 \<or> p = (1::real)"
  by (simp add: nonzero_divide_eq_eq)

lemma scaled_same_iff:
  assumes "x \<noteq> []" and "peak x \<noteq> 0"
  shows "map (\<lambda>v. v / peak x) x = x \<longleftrightarrow> peak x = 1"
proof
  assume "peak x = 1"
  then show "map (\<lambda>v. v / peak x) x = x" by simp
next
  assume eq: "map (\<lambda>v. v / peak x) x = x"
  from peak_attained [OF assms(1)] obtain v where v: "v \<in> set x" and a: "\<bar>v\<bar> = peak x"
    by blast
  from eq have "map (\<lambda>v. v / peak x) x = map (\<lambda>v. v) x" by simp
  then have "\<forall>v\<in>set x. v / peak x = v" by (simp only: map_eq_conv)
  with v have "v / peak x = v" by blast
  moreover from a assms(2) have "v \<noteq> 0" by auto
  ultimately show "peak x = 1" using assms(2) by (simp add: div_same_iff)
qed

lemma cells_same_iff:
  assumes "x \<noteq> []" and "peak x \<noteq> 0"
  shows "map (\<lambda>v. Val (v / peak x)) x = map Val x \<longleftrightarrow> peak x = 1"
proof -
  have "map (\<lambda>v. Val (v / peak x)) x = map Val (map (\<lambda>v. v / peak x) x)" by simp
  moreover have "map Val (map (\<lambda>v. v / peak x) x) = map Val x \<longleftrightarrow> map (\<lambda>v. v / peak x) x = x"
    by (rule inj_map_eq_map) (simp add: inj_on_def)
  ultimately show ?thesis using scaled_same_iff [OF assms] by (simp only:)
qed

text \<open>
  Claim C2 fails on the code: \<open>quantize\<close> divides the caller's array in place. With the
  array \<open>[2, 1]\<close> at address 0, the store after \<open>quantize\<close> holds \<open>[1, 1/2]\<close> there.
\<close>

theorem quantize_mutates_input_counterexample:
  "fst (quantize (\<lambda>a. [2, 1]) 0 1) 0 = [Val 1, Val (1 / 2)]
   \<and> fst (quantize (\<lambda>a. [2, 1]) 0 1) 0 \<noteq> map Val [2, 1]"
proof -
  have pk: "peak [2, 1] = 2" by (simp add: peak_def)
  have "fst (quantize (\<lambda>a. [2, 1]) 0 1) 0 = map (\<lambda>v. Val (v / peak [2, 1])) [2, 1]"
    by (rule quantize_store [of "\<lambda>a. [2, 1]" 0 "[2, 1]" 1]) (simp_all add: pk)
  then have "fst (quantize (\<lambda>a. [2, 1]) 0 1) 0 = [Val 1, Val (1 / 2)]" by (simp add: pk)
  then show ?thesis by simp
qed

text \<open>
  Claim C2 as amended. For a non-empty input array \<open>x\<close>, \<open>quantize\<close> overwrites the
  caller's array. With a non-zero peak the array holds \<open>x\<close> divided by its peak after the
  call: it is unchanged exactly when the peak is 1 already. With a zero peak every sample
  is overwritten by NaN, and the call raises IndexError.
\<close>

theorem quantize_overwrites_input_with_normalized:
  assumes "st a = x" and "x \<noteq> []"
  shows "(peak x \<noteq> 0 \<longrightarrow>
            fst (quantize st a n) a = map (\<lambda>v. Val (v / peak x)) x
            \<and> (fst (quantize st a n) a = map Val x \<longleftrightarrow> peak x = 1))
       \<and> (peak x = 0 \<longrightarrow>
            fst (quantize st a n) a = replicate (length x) NaN
            \<and> snd (quantize st a n) = Inl IndexError)"
proof (intro conjI impI)
  assume p: "peak x \<noteq> 0"
  show 1: "fst (quantize st a n) a = map (\<lambda>v. Val (v / peak x)) x"
    using assms p by (rule quantize_store)
  show "fst (quantize st a n) a = map Val x \<longleftrightarrow> peak x = 1"
    using cells_same_iff [OF assms(2) p] by (simp only: 1)
next
  assume p: "peak x = 0"
  show "fst (quantize st a n) a = replicate (length x) NaN"
    using assms p by (rule quantize_zero_peak(1))
  show "snd (quantize st a n) = Inl IndexError"
    using assms p by (rule quantize_zero_peak(2))
qed

theorem quantize_overwrites_input_with_normalized_witness:
  "(\<lambda>a. [2, 1]) (0::nat) = [2, 1::real] \<and> [2, 1] \<noteq> ([]::real list) \<and> peak [2, 1] \<noteq> 0
   \<and> fst (quantize (\<lambda>a. [2, 1]) 0 3) 0 = [Val 1, Val (1 / 2)]
   \<and> (\<lambda>a. [0, 0]) (0::nat) = [0, 0::real] \<and> [0, 0] \<noteq> ([]::real list) \<and> peak [0, 0] = 0
   \<and> fst (quantize (\<lambda>a. [0, 0]) 0 3) 0 = [NaN, NaN]
   \<and> snd (quantize (\<lambda>a. [0, 0]) 0 3) = Inl IndexError"
proof -
  have pk: "peak [2, 1] = 2" by (simp add: peak_def)
  have a: "(\<lambda>a. [2, 1]) (0::nat) = [2, 1::real]" by simp
  have b: "[2, 1] \<noteq> ([]::real list)" by simp
  have c: "peak [2, 1] \<noteq> 0" by (simp add: pk)
  have a0: "(\<lambda>a. [0, 0]) (0::nat) = [0, 0::real]" by simp
  have b0: "[0, 0] \<noteq> ([]::real list)" by simp
  have c0: "peak [0, 0] = 0" by (simp add: peak_def)
  note t = quantize_overwrites_input_with_normalized [of "\<lambda>a. [2, 1]" 0 "[2, 1]" 3, OF a b]
  note t0 = quantize_overwrites_input_with_normalized [of "\<lambda>a. [0, 0]" 0 "[0, 0]" 3, OF a0 b0]
  from t c have "fst (quantize (\<lambda>a. [2, 1]) 0 3) 0 = map (\<lambda>v. Val (v / peak [2, 1])) [2, 1]"
    by (simp only: simp_thms)
  then have 1: "fst (quantize (\<lambda>a. [2, 1]) 0 3) 0 = [Val 1, Val (1 / 2)]" by (simp add: pk)
  from t0 c0 have "fst (quantize (\<lambda>a. [0, 0]) 0 3) 0 = replicate (length [0, 0::real]) NaN
      \<and> snd (quantize (\<lambda>a. [0, 0]) 0 3) = Inl IndexError"
    by (simp only: simp_thms)
  then have 2: "fst (quantize (\<lambda>a. [0, 0]) 0 3) 0 = [NaN, NaN]"
    and 3: "snd (quantize (\<lambda>a. [0, 0]) 0 3) = Inl IndexError"
    by (simp_all add: eval_nat_numeral)
  from a b c 1 a0 b0 c0 2 3 show ?thesis by (intro conjI)
qed

subsection \<open>Sampling segments\<close>

lemma around_bounds:
  assumes "0 \<le> r" and "r \<le> real_of_int m"
  shows "0 \<le> around r \<and> around r \<le> m"
proof -
  have f0: "0 \<le> \<lfloor>r\<rfloor>" using assms(1) by simp
  have fm: "\<lfloor>r\<rfloor> \<le> m" using assms(2) by (simp add: floor_le_iff)
  show ?thesis
  proof (cases "\<lfloor>r\<rfloor> = m")
    case True
    with assms(2) have "r - of_int \<lfloor>r\<rfloor> \<le> 0" by simp
    then have "around r = \<lfloor>r\<rfloor>" by (simp add: around_def Let_def)
    with f0 True show ?thesis by simp
  next
    case False
    with fm have "\<lfloor>r\<rfloor> + 1 \<le> m" by simp
    moreover have "around r = \<lfloor>r\<rfloor> \<or> around r = \<lfloor>r\<rfloor> + 1"
      by (simp add: around_def Let_def)
    ultimately show ?thesis using f0 by auto
  qed
qed

lemma around_nearest: "\<bar>real_of_int (around r) - r\<bar> \<le> 1 / 2"
proof -
  have "of_int \<lfloor>r\<rfloor> \<le> r" "r < of_int \<lfloor>r\<rfloor> + 1" by linarith+
  then show ?thesis by (auto simp add: around_def Let_def)
qed

lemma py_slice_window:
  assumes "0 \<le> i" and "0 \<le> l" and "i + l \<le> int (length xs)"
  shows "py_slice xs i (i + l) = take (nat l) (drop (nat i) xs)"
    and "length (py_slice xs i (i + l)) = nat l"
proof -
  from assms have "min i (int (length xs)) = i" "min (i + l) (int (length xs)) = i + l"
    by simp_all
  with assms show e: "py_slice xs i (i + l) = take (nat l) (drop (nat i) xs)"
    by (simp add: py_slice_def Let_def)
  from assms have "nat l \<le> length xs - nat i" by linarith
  then show "length (py_slice xs i (i + l)) = nat l"
    by (simp only: e) simp
qed

lemma around_of_int: "around (of_int z) = z"
  by (simp add: around_def Let_def)

text \<open>Rounding to a double, given the binade of the value.\<close>

lemma round_double_at:
  assumes "0 < v" and "2 powr of_int e \<le> v" and "v < 2 powr (of_int e + 1)"
  shows "round_double v = of_int (around (v / 2 powr (of_int e - 52))) * 2 powr (of_int e - 52)"
proof -
  from assms have "of_int e \<le> log 2 v" by (simp add: le_log_iff)
  moreover from assms have "log 2 v < of_int e + 1" by (simp add: log_less_iff)
  ultimately have "\<lfloor>log 2 v\<rfloor> = e" by (simp add: floor_eq_iff)
  with assms(1) show ?thesis by (simp add: round_double_def Let_def)
qed

text \<open>Below \<open>2 ^ 53\<close> the doubles are the multiples of a negative power of two.\<close>

lemma round_double_scaled:
  assumes "0 < v" and "v < 2 ^ 53"
  shows "\<exists>k. round_double v = of_int (around (v * 2 ^ k)) / 2 ^ k"
proof -
  define e where "e = \<lfloor>log 2 v\<rfloor>"
  have "of_int e \<le> log 2 v" by (simp add: e_def)
  with assms(1) have lo: "2 powr of_int e \<le> v" by (simp add: le_log_iff)
  have "log 2 v < of_int e + 1" unfolding e_def by linarith
  with assms(1) have hi: "v < 2 powr (of_int e + 1)" by (simp add: log_less_iff)
  from lo assms(2) have "2 powr of_int e < (2::real) powr 53" by simp
  then have "of_int e < (53::real)" by (simp only: powr_less_cancel_iff)
  then have e52: "e \<le> 52" by linarith
  define k where "k = nat (52 - e)"
  from e52 have "of_int e - 52 = - real k" by (simp add: k_def)
  then have u: "2 powr (real_of_int e - 52) = 1 / 2 ^ k"
    by (simp add: powr_minus powr_realpow inverse_eq_divide)
  from round_double_at [OF assms(1) lo hi]
  have "round_double v = of_int (around (v * 2 ^ k)) / 2 ^ k" by (simp add: u)
  then show ?thesis ..
qed

lemma round_double_nonneg:
  assumes "0 \<le> v" and "v < 2 ^ 53"
  shows "0 \<le> round_double v"
proof (cases "v = 0")
  case True then show ?thesis by (simp add: round_double_def)
next
  case False
  with assms have pos: "0 < v" by simp
  from round_double_scaled [OF pos assms(2)] obtain k
    where k: "round_double v = of_int (around (v * 2 ^ k)) / 2 ^ k" ..
  from pos have "0 \<le> \<lfloor>v * 2 ^ k\<rfloor>" by simp
  moreover have "\<lfloor>v * 2 ^ k\<rfloor> \<le> around (v * 2 ^ k)" by (simp add: around_def Let_def)
  ultimately have "0 \<le> around (v * 2 ^ k)" by linarith
  then show ?thesis by (simp add: k)
qed

text \<open>Rounding to a double does not cross an integer below \<open>2 ^ 53\<close>, which is a double.\<close>

lemma round_double_le_int:
  assumes "0 \<le> v" and "v \<le> of_int M" and "M < 2 ^ 53"
  shows "round_double v \<le> of_int M"
proof (cases "v = 0")
  case True
  with assms(2) show ?thesis by (simp add: round_double_def)
next
  case False
  with assms have pos: "0 < v" by simp
  from assms(3) have "real_of_int M < 2 ^ 53" by (metis of_int_less_numeral_power_cancel_iff)
  with assms(2) have lt: "v < 2 ^ 53" by linarith
  from round_double_scaled [OF pos lt] obtain k
    where k: "round_double v = of_int (around (v * 2 ^ k)) / 2 ^ k" ..
  from pos have lo: "0 \<le> v * 2 ^ k" by simp
  from assms(2) have hi: "v * 2 ^ k \<le> real_of_int (M * 2 ^ k)" by simp
  from around_bounds [OF lo hi] have "around (v * 2 ^ k) \<le> M * 2 ^ k" by simp
  then have "real_of_int (around (v * 2 ^ k)) \<le> real_of_int (M * 2 ^ k)"
    by (simp only: of_int_le_iff)
  then have "real_of_int (around (v * 2 ^ k)) / 2 ^ k \<le> real_of_int (M * 2 ^ k) / 2 ^ k"
    by (rule divide_right_mono) simp
  moreover have "real_of_int (M * 2 ^ k) / 2 ^ k = real_of_int M" by simp
  ultimately show ?thesis by (simp only: k)
qed

lemma round_double_of_int:
  assumes "0 \<le> M" and "M < 2 ^ 53"
  shows "round_double (of_int M) = of_int M"
proof (cases "M = 0")
  case True then show ?thesis by (simp add: round_double_def)
next
  case False
  with assms have pos: "0 < real_of_int M" by simp
  from assms(2) have lt: "real_of_int M < 2 ^ 53" by (metis of_int_less_numeral_power_cancel_iff)
  from round_double_scaled [OF pos lt] obtain k
    where k: "round_double (of_int M) = of_int (around (of_int M * 2 ^ k)) / 2 ^ k" ..
  have "real_of_int M * 2 ^ k = of_int (M * 2 ^ k)" by simp
  then have "around (real_of_int M * 2 ^ k) = M * 2 ^ k" by (simp only: around_of_int)
  then show ?thesis by (simp add: k)
qed

text \<open>The double product of a draw and the largest offset stays within the offsets.\<close>

lemma scaled_draw:
  assumes "0 \<le> u" and "u < 1" and "0 \<le> m" and "m < 2 ^ 53"
  shows "fmul u (double_of_int m) = round_double (u * real_of_int m)"
    and "0 \<le> round_double (u * real_of_int m)"
    and "round_double (u * real_of_int m) \<le> real_of_int m"
proof -
  show "fmul u (double_of_int m) = round_double (u * real_of_int m)"
    by (simp add: fmul_def double_of_int_def round_double_of_int [OF assms(3,4)])
  from assms have lo: "0 \<le> u * real_of_int m" by simp
  from assms have hi: "u * real_of_int m \<le> real_of_int m"
    by (simp add: mult_left_le_one_le)
  from assms(4) have "real_of_int m < 2 ^ 53" by (metis of_int_less_numeral_power_cancel_iff)
  with hi have "u * real_of_int m < 2 ^ 53" by linarith
  with lo show "0 \<le> round_double (u * real_of_int m)" by (rule round_double_nonneg)
  from lo hi assms(4) show "round_double (u * real_of_int m) \<le> real_of_int m"
    by (rule round_double_le_int)
qed

lemma sample_fails_iff:
  "fst (sample s L K g) = Inl AssertionError \<longleftrightarrow> int (length s) < L"
  by (auto simp add: sample_def rand_rand_def Let_def)

lemma sample_result:
  assumes "L \<le> int (length s)" and "0 \<le> K"
  shows "fst (sample s L K g) =
           Inr (map (\<lambda>u. py_slice s (around (fmul u (double_of_int (int (length s) - L))))
                                     (around (fmul u (double_of_int (int (length s) - L))) + L))
                    (map g [0..<nat K]))"
  using assms by (simp add: sample_def rand_rand_def Let_def)

text \<open>
  Claim C6. \<open>sample\<close> fails with the assertion exactly when the segment length exceeds
  the length of the signal. Otherwise, for a length \<open>L \<ge> 0\<close>, a count \<open>K \<ge> 0\<close>, draws in
  [0, 1) and fewer than \<open>2 ^ 53\<close> offsets, it returns \<open>K\<close> segments; segment \<open>j\<close> starts at
  the offset got by rounding to the nearest integer the double product of draw \<open>j\<close> and
  \<open>len(s) - L\<close>, the offset lies in \<open>[0, len(s) - L]\<close>, and the segment is the \<open>L\<close> samples
  of \<open>s\<close> from that offset on.
\<close>

theorem sample_segments:
  "(fst (sample s L K g) = Inl AssertionError \<longleftrightarrow> int (length s) < L)
   \<and> (0 \<le> L \<and> L \<le> int (length s) \<and> int (length s) - L < 2 ^ 53 \<and> 0 \<le> K \<and> uniform g \<longrightarrow>
        (\<exists>segs. fst (sample s L K g) = Inr segs \<and> length segs = nat K
           \<and> (\<forall>j<nat K. \<exists>off.
                  off = around (round_double (g j * real_of_int (int (length s) - L)))
                  \<and> 0 \<le> off \<and> off \<le> int (length s) - L
                  \<and> \<bar>real_of_int off - round_double (g j * real_of_int (int (length s) - L))\<bar>
                      \<le> 1 / 2
                  \<and> segs ! j = take (nat L) (drop (nat off) s)
                  \<and> length (segs ! j) = nat L)))"
proof (intro conjI impI)
  show "fst (sample s L K g) = Inl AssertionError \<longleftrightarrow> int (length s) < L"
    by (rule sample_fails_iff)
next
  assume h: "0 \<le> L \<and> L \<le> int (length s) \<and> int (length s) - L < 2 ^ 53 \<and> 0 \<le> K \<and> uniform g"
  define m where "m = int (length s) - L"
  define p where "p = (\<lambda>u. round_double (u * real_of_int m))"
  define segs where "segs = map (\<lambda>u. py_slice s (around (fmul u (double_of_int m)))
                                     (around (fmul u (double_of_int m)) + L)) (map g [0..<nat K])"
  from h have m0: "0 \<le> m" and m53: "m < 2 ^ 53" by (simp_all add: m_def)
  from h have r: "fst (sample s L K g) = Inr segs"
    by (simp add: sample_result segs_def m_def)
  have len: "length segs = nat K" by (simp add: segs_def)
  have each: "\<exists>off. off = around (p (g j))
                  \<and> 0 \<le> off \<and> off \<le> m
                  \<and> \<bar>real_of_int off - p (g j)\<bar> \<le> 1 / 2
                  \<and> segs ! j = take (nat L) (drop (nat off) s)
                  \<and> length (segs ! j) = nat L" if j: "j < nat K" for j
  proof -
    from h have u: "0 \<le> g j" "g j < 1" by (simp_all add: uniform_def)
    note d = scaled_draw [OF u m0 m53]
    from d(2) have lo: "0 \<le> p (g j)" by (simp only: p_def)
    from d(3) have hi: "p (g j) \<le> real_of_int m" by (simp only: p_def)
    from around_bounds [OF lo hi] have b: "0 \<le> around (p (g j))" "around (p (g j)) \<le> m"
      by simp_all
    from b(2) have fit: "around (p (g j)) + L \<le> int (length s)"
      by (simp add: m_def)
    from h have L0: "0 \<le> L" by simp
    from j have "segs ! j = py_slice s (around (fmul (g j) (double_of_int m)))
                                     (around (fmul (g j) (double_of_int m)) + L)"
      by (simp add: segs_def)
    then have sj: "segs ! j = py_slice s (around (p (g j))) (around (p (g j)) + L)"
      by (simp only: d(1) p_def)
    from py_slice_window [OF b(1) L0 fit] sj
    have "segs ! j = take (nat L) (drop (nat (around (p (g j)))) s)"
      and "length (segs ! j) = nat L" by simp_all
    with b around_nearest [of "p (g j)"] show ?thesis by blast
  qed
  show "\<exists>segs. fst (sample s L K g) = Inr segs \<and> length segs = nat K
           \<and> (\<forall>j<nat K. \<exists>off.
                  off = around (round_double (g j * real_of_int (int (length s) - L)))
                  \<and> 0 \<le> off \<and> off \<le> int (length s) - L
                  \<and> \<bar>real_of_int off - round_double (g j * real_of_int (int (length s) - L))\<bar>
                      \<le> 1 / 2
                  \<and> segs ! j = take (nat L) (drop (nat off) s)
                  \<and> length (segs ! j) = nat L)"
    using r len each unfolding m_def p_def by blast
qed

text \<open>
  The draw of the witness is the double nearest to 0.9: times 5 it is a little more than
  4.5 as a real and exactly 4.5 as a double, which is rounded to the even offset 4.
\<close>

theorem sample_segments_witness:
  "(0::int) \<le> 2 \<and> 2 \<le> int (length [1, 2, 3, 4, 5, 6, 7::nat])
   \<and> int (length [1, 2, 3, 4, 5, 6, 7::nat]) - 2 < 2 ^ 53 \<and> (0::int) \<le> 3
   \<and> uniform (\<lambda>i. 8106479329266893 / 2 ^ 53)
   \<and> (\<exists>segs. fst (sample [1, 2, 3, 4, 5, 6, 7::nat] 2 3 (\<lambda>i. 8106479329266893 / 2 ^ 53)) = Inr segs
          \<and> length segs = 3 \<and> segs ! 0 = [5, 6] \<and> segs ! 2 = [5, 6])
   \<and> fst (sample [1, 2, 3, 4, 5, 6, 7::nat] 8 3 (\<lambda>i. 8106479329266893 / 2 ^ 53))
       = Inl AssertionError"
proof -
  let ?s = "[1, 2, 3, 4, 5, 6, 7::nat]"
  let ?g = "\<lambda>i::nat. 8106479329266893 / 2 ^ 53 :: real"
  let ?v = "8106479329266893 / 2 ^ 53 * 5 :: real"
  have u: "uniform ?g" by (simp add: uniform_def)
  have h: "(0::int) \<le> 2 \<and> 2 \<le> int (length ?s) \<and> int (length ?s) - 2 < 2 ^ 53
           \<and> (0::int) \<le> 3 \<and> uniform ?g"
    using u by simp
  have "round_double ?v = of_int (around (?v / 2 powr (of_int 2 - 52))) * 2 powr (of_int 2 - 52)"
    by (rule round_double_at) simp_all
  also have "2 powr (of_int 2 - 52) = (1 / 2 ^ 50 :: real)"
    by (simp add: powr_minus inverse_eq_divide)
  finally have "round_double ?v = 9 / 2" by (simp add: around_def Let_def)
  moreover have "around (9 / 2) = 4" by (simp add: around_def Let_def)
  ultimately have "around (round_double ?v) = 4" by (simp only:)
  then have ar: "around (round_double (8106479329266893 / 2 ^ 53 * real_of_int (int (length ?s) - 2))) = 4"
    by simp
  from sample_segments [of ?s 2 3 ?g, THEN conjunct2, THEN mp, OF h]
  obtain segs where r: "fst (sample ?s 2 3 ?g) = Inr segs" and l: "length segs = nat 3"
    and e: "\<forall>j<nat 3. \<exists>off.
                  off = around (round_double (?g j * real_of_int (int (length ?s) - 2)))
                  \<and> 0 \<le> off \<and> off \<le> int (length ?s) - 2
                  \<and> \<bar>real_of_int off - round_double (?g j * real_of_int (int (length ?s) - 2))\<bar>
                      \<le> 1 / 2
                  \<and> segs ! j = take (nat 2) (drop (nat off) ?s)
                  \<and> length (segs ! j) = nat 2"
    by blast
  have seg: "segs ! j = [5, 6]" if "j < nat 3" for j
  proof -
    from e that obtain off
      where "off = around (round_double (?g j * real_of_int (int (length ?s) - 2)))"
      and "segs ! j = take (nat 2) (drop (nat off) ?s)" by blast
    then have "segs ! j = take (nat 2) (drop (nat 4) ?s)" by (simp only: ar)
    then show ?thesis by (simp add: eval_nat_numeral)
  qed
  have "segs ! 0 = [5, 6]" "segs ! 2 = [5, 6]" by (rule seg, simp)+
  with r l have ex: "\<exists>segs. fst (sample ?s 2 3 ?g) = Inr segs
          \<and> length segs = 3 \<and> segs ! 0 = [5, 6] \<and> segs ! 2 = [5, 6]" by auto
  have "int (length ?s) < 8" by simp
  with sample_segments [of ?s 8 3 ?g, THEN conjunct1]
  have f: "fst (sample ?s 8 3 ?g) = Inl AssertionError" by (rule iffD2)
  from h ex f show ?thesis by (intro conjI) simp_all
qed

subsection \<open>Frequency responses of the unit and the zero polynomial\<close>

lemma fft_impulse:
  assumes "1 \<le> nfft"
  shows "fft [1] nfft = Inr (replicate (nat nfft) 1)"
proof -
  define m where "m = nat nfft"
  from assms have m: "0 < m" by (simp add: m_def)
  have pad: "take m ([1::real] @ replicate (m - length [1::real]) 0) ! k = (if k = 0 then 1 else 0)"
    if "k < m" for k
    using that by (cases k) (simp_all add: nth_append)
  have bin: "(\<Sum>k<m. complex_of_real (take m ([1] @ replicate (m - length [1::real]) 0) ! k)
                 * cis (- (2 * pi * real j * real k / real m))) = 1" for j
  proof -
    have "(\<Sum>k<m. complex_of_real (take m ([1] @ replicate (m - length [1::real]) 0) ! k)
                 * cis (- (2 * pi * real j * real k / real m)))
        = (\<Sum>k<m. if k = 0 then 1 else 0)"
      by (rule sum.cong) (simp_all add: pad)
    also have "\<dots> = 1" using m by simp
    finally show ?thesis .
  qed
  have "map (\<lambda>j. \<Sum>k<m. complex_of_real (take m ([1] @ replicate (m - length [1::real]) 0) ! k)
                 * cis (- (2 * pi * real j * real k / real m))) [0..<m] = replicate m 1"
    by (simp only: bin) (simp add: map_replicate_const)
  with assms show ?thesis by (simp add: fft_def Let_def m_def)
qed

lemma fft_zero:
  assumes "1 \<le> nfft"
  shows "fft [0] nfft = Inr (replicate (nat nfft) 0)"
proof -
  define m where "m = nat nfft"
  have pad: "take m ([0::real] @ replicate (m - length [0::real]) 0) ! k = 0" if "k < m" for k
    using that by (cases k) (simp_all add: nth_append)
  have bin: "(\<Sum>k<m. complex_of_real (take m ([0] @ replicate (m - length [0::real]) 0) ! k)
                 * cis (- (2 * pi * real j * real k / real m))) = 0" for j
  proof -
    have "(\<Sum>k<m. complex_of_real (take m ([0] @ replicate (m - length [0::real]) 0) ! k)
                 * cis (- (2 * pi * real j * real k / real m)))
        = (\<Sum>k<m. 0)"
      by (rule sum.cong [OF refl]) (simp only: lessThan_iff pad, simp)
    then show ?thesis by simp
  qed
  have "map (\<lambda>j. \<Sum>k<m. complex_of_real (take m ([0] @ replicate (m - length [0::real]) 0) ! k)
                 * cis (- (2 * pi * real j * real k / real m))) [0..<m] = replicate m 0"
    by (simp only: bin) (simp add: map_replicate_const)
  with assms show ?thesis by (simp add: fft_def Let_def m_def)
qed


lemma put_where_all: "length vs = length ds \<Longrightarrow> put_where ds (replicate (length ds) True) vs = vs"
  by (induction ds arbitrary: vs) (auto simp add: length_Suc_conv)

lemma mask_fill_none: "mask_fill ds (replicate (length ds) False) c = ds"
  by (induction ds) (simp_all add: mask_fill_def)

lemma mask_fill_all: "mask_fill ds (replicate (length ds) True) c = replicate (length ds) c"
  by (induction ds) (simp_all add: mask_fill_def)

lemma iirfreqz_one:
  assumes "1 \<le> nfft"
  shows "iirfreqz [1] nfft c = Inr (linspace 0 2 (nat nfft) False, replicate (nat nfft) 1)"
proof -
  define m where "m = nat nfft"
  have ma: "mask_assign (replicate m (0::complex)) (replicate m True) (replicate m 1)
            = Inr (replicate m 1)"
    using put_where_all [of "replicate m (1::complex)" "replicate m 0"]
    by (simp add: mask_assign_def Let_def)
  have mf: "mask_fill (replicate m (1::complex)) (replicate m False) (complex_of_real c)
            = replicate m 1"
    using mask_fill_none [of "replicate m (1::complex)"] by simp
  show ?thesis
    by (simp add: iirfreqz_def fft_impulse [OF assms] Let_def m_def [symmetric] ma mf)
qed

text \<open>
  Claim C9. For every \<open>nfft \<ge> 1\<close> and every ceiling, \<open>freqz\<close> with numerator \<open>[1]\<close> and
  denominator \<open>[1]\<close> returns the frequency grid with a response equal to one at each of
  the \<open>nfft\<close> bins: the transform of \<open>[1]\<close> is all ones, no bin is zero, and the product
  of the two responses is all ones.
\<close>

theorem freqz_unit_is_all_ones:
  assumes "1 \<le> nfft"
  shows "freqz [1] [1] nfft c = Inr (linspace 0 2 (nat nfft) False, replicate (nat nfft) 1)
       \<and> firfreqz [1] nfft = Inr (linspace 0 2 (nat nfft) False, replicate (nat nfft) 1)
       \<and> iirfreqz [1] nfft c = Inr (linspace 0 2 (nat nfft) False, replicate (nat nfft) 1)"
proof -
  have f: "firfreqz [1] nfft = Inr (linspace 0 2 (nat nfft) False, replicate (nat nfft) 1)"
    by (simp add: firfreqz_def fft_impulse [OF assms] Let_def)
  have i: "iirfreqz [1] nfft c = Inr (linspace 0 2 (nat nfft) False, replicate (nat nfft) 1)"
    by (rule iirfreqz_one [OF assms])
  have p: "map2 (*) (replicate (nat nfft) (1::complex)) (replicate (nat nfft) 1)
           = replicate (nat nfft) 1"
    by (simp add: map_replicate_const)
  have "freqz [1] [1] nfft c = Inr (linspace 0 2 (nat nfft) False, replicate (nat nfft) 1)"
    by (simp add: freqz_def f i p)
  with f i show ?thesis by (intro conjI)
qed

theorem freqz_unit_is_all_ones_witness:
  "(1::int) \<le> 4 \<and> freqz [1] [1] 4 FREQZ_CEILING = Inr ([0, 1 / 2, 1, 3 / 2], [1, 1, 1, 1])"
proof -
  have h: "(1::int) \<le> 4" by simp
  have w: "linspace 0 2 (nat 4) False = [0, 1 / 2, 1, 3 / 2]"
    by (simp add: linspace_def Let_def eval_nat_numeral)
  have r: "replicate (nat 4) (1::complex) = [1, 1, 1, 1]" by (simp add: eval_nat_numeral)
  from freqz_unit_is_all_ones [OF h, of FREQZ_CEILING, THEN conjunct1]
  have "freqz [1] [1] 4 FREQZ_CEILING = Inr ([0, 1 / 2, 1, 3 / 2], [1, 1, 1, 1])"
    by (simp only: w r)
  with h show ?thesis by (intro conjI)
qed

text \<open>
  Claim C1, at the failing input. For the zero polynomial \<open>[0]\<close> and \<open>nfft = 2\<close>
  every bin of the transform is zero, so the mask of the non-zero bins selects nothing,
  and assigning the two reciprocals through it fails: \<open>iirfreqz\<close> raises ValueError
  instead of returning the ceiling at both bins. Only for \<open>nfft = 1\<close>, where the single
  reciprocal is broadcast over no position, does the ceiling come out.
\<close>

theorem iirfreqz_zero_polynomial_raises:
  "iirfreqz [0] 2 FREQZ_CEILING = Inl ValueError
   \<and> iirfreqz [0] 1 FREQZ_CEILING = Inr ([0], [complex_of_real FREQZ_CEILING])"
proof -
  have f2: "fft [0] 2 = Inr [0, 0]"
    using fft_zero [of 2] by (simp add: eval_nat_numeral)
  have f1: "fft [0] 1 = Inr [0]"
    using fft_zero [of 1] by simp
  have a: "iirfreqz [0] 2 FREQZ_CEILING = Inl ValueError"
    by (simp add: iirfreqz_def f2 Let_def mask_assign_def)
  have b: "iirfreqz [0] 1 FREQZ_CEILING = Inr ([0], [complex_of_real FREQZ_CEILING])"
    by (simp add: iirfreqz_def f1 Let_def mask_assign_def mask_fill_def linspace_def)
  from a b show ?thesis by (intro conjI)
qed

subsection \<open>Scaling noise to a finite SNR\<close>

lemma dot_scaled: "dot (map (\<lambda>v. c * v) xs) (map (\<lambda>v. c * v) xs) = c\<^sup>2 * dot xs xs"
  by (induction xs) (simp_all add: dot_def algebra_simps power2_eq_square)

lemma dot_self_nonneg: "0 \<le> dot xs xs"
  by (induction xs) (simp_all add: dot_def)

lemma below_overflow:
  assumes "v \<le> 2 ^ 1000"
  shows "v < DBL_OVERFLOW"
proof -
  have "(2::real) ^ 1000 < 2 ^ 1024 - 2 ^ 970" by simp
  with assms show ?thesis by (simp only: DBL_OVERFLOW_def)
qed

lemma beyond_overflow:
  assumes "2 ^ 1025 \<le> v"
  shows "DBL_OVERFLOW \<le> v"
proof -
  have "(2::real) ^ 1024 - 2 ^ 970 \<le> 2 ^ 1025" by simp
  with assms show ?thesis by (simp only: DBL_OVERFLOW_def)
qed

lemma double_range_no_overflow:
  assumes "double_range v"
  shows "v < DBL_OVERFLOW"
proof -
  from assms have "v \<le> 2 ^ 1000" by (auto simp add: double_range_def)
  then show ?thesis by (rule below_overflow)
qed

lemma additive_noise_overflow:
  assumes "n \<noteq> []" and "DBL_OVERFLOW \<le> 10 powr (d / 10)"
  shows "fst (additive_noise x n (Some (Db d)) g) = Inl OverflowError"
  using assms by (simp add: additive_noise_def Let_def py_pow10_def)

lemma additive_noise_finite:
  assumes "n \<noteq> []"
    and "nn = (if length x > length n
               then take (length x) (tile n (nat \<lceil>real (length x) / real (length n)\<rceil>))
               else take (length x) n)"
    and "dot nn nn \<noteq> 0" and "10 powr (d / 10) < DBL_OVERFLOW"
  shows "fst (additive_noise x n (Some (Db d)) g)
         = Inr (map (\<lambda>v. sqrt (dot x x / (10 powr (d / 10)) / dot nn nn) * v) nn)"
  using assms(1,3,4) unfolding assms(2) by (simp add: additive_noise_def Let_def py_pow10_def)

lemma additive_noise_nonfinite:
  assumes "n \<noteq> []"
    and "nn = (if length x > length n
               then take (length x) (tile n (nat \<lceil>real (length x) / real (length n)\<rceil>))
               else take (length x) n)"
    and "nn \<noteq> []" and "dot nn nn = 0" and "10 powr (d / 10) < DBL_OVERFLOW"
  shows "fst (additive_noise x n (Some (Db d)) g) = Inl NonFinite"
  using assms(1,3,4,5) unfolding assms(2) by (simp add: additive_noise_def Let_def py_pow10_def)

lemma scaled_energy:
  assumes "0 < ne" and "0 \<le> xe" and "0 < p"
  shows "(sqrt (xe / p / ne))\<^sup>2 * ne = xe / p"
proof -
  from assms have "0 \<le> xe / p / ne" by simp
  then have "(sqrt (xe / p / ne))\<^sup>2 = xe / p / ne" by (rule real_sqrt_pow2)
  with assms(1) show ?thesis by simp
qed

text \<open>
  Claim C4 fails on the code where the adjusted noise has zero energy: for the signal
  \<open>[1]\<close> and the noise \<open>[0]\<close> at 0 dB the scale divides by \<open>En = 0\<close>, the result holds no
  finite sample, and no output energy stands in the claimed ratio to the signal energy.
\<close>

theorem additive_noise_zero_energy_counterexample:
  "fst (additive_noise [1] [0] (Some (Db 0)) (\<lambda>i. 0)) = Inl NonFinite
   \<and> \<not> (\<exists>r. fst (additive_noise [1] [0] (Some (Db 0)) (\<lambda>i. 0)) = Inr r
            \<and> dot r r / dot [1] [1] = 10 powr (- 0 / 10))"
proof -
  have "fst (additive_noise [1] [0] (Some (Db 0)) (\<lambda>i. 0)) = Inl NonFinite"
    by (rule additive_noise_nonfinite [where nn = "[0]"]) (simp_all add: dot_def DBL_OVERFLOW_def)
  then show ?thesis by simp
qed

text \<open>
  Claim C4 as amended, over exact arithmetic. For a non-empty signal \<open>x\<close>, a non-empty
  noise \<open>n\<close> and a finite SNR \<open>d\<close> in dB, the noise is first adjusted to the length of \<open>x\<close>
  (tiled and cut when \<open>x\<close> is longer, cut otherwise; sample \<open>i\<close> of the adjusted noise is
  sample \<open>i mod len(n)\<close> of \<open>n\<close>). When \<open>10^(d/10)\<close> is beyond the doubles (from
  \<open>2 ^ 1025\<close> on), the call raises OverflowError. When it is within the doubles (up to
  \<open>2 ^ 1000\<close>) and the energy \<open>En\<close> of the adjusted noise is zero, the scale is a division
  by zero and the result holds no finite sample. When \<open>En\<close> is not zero and
  the energies \<open>Es\<close> and \<open>En\<close>, the power \<open>10^(d/10)\<close> and the quotients \<open>Es / 10^(d/10)\<close> and
  \<open>Es / 10^(d/10) / En\<close> are all within the range of doubles, the result is the adjusted
  noise times \<open>sqrt(Es / 10^(d/10) / En)\<close>; when moreover \<open>Es\<close> is not zero, the output
  energy divided by \<open>Es\<close> is \<open>10^(-d/10)\<close>.
\<close>

theorem additive_noise_scales_to_snr:
  assumes "x \<noteq> []" and "n \<noteq> []"
  shows "\<exists>nn. nn = (if length x > length n
                    then take (length x) (tile n (nat \<lceil>real (length x) / real (length n)\<rceil>))
                    else take (length x) n)
           \<and> length nn = length x
           \<and> (\<forall>i<length x. nn ! i = n ! (i mod length n))
           \<and> (2 ^ 1025 \<le> 10 powr (d / 10) \<longrightarrow>
                fst (additive_noise x n (Some (Db d)) g) = Inl OverflowError)
           \<and> (10 powr (d / 10) \<le> 2 ^ 1000 \<and> dot nn nn = 0 \<longrightarrow>
                fst (additive_noise x n (Some (Db d)) g) = Inl NonFinite)
           \<and> (dot nn nn \<noteq> 0 \<and> double_range (dot x x) \<and> double_range (dot nn nn)
              \<and> double_range (10 powr (d / 10)) \<and> double_range (dot x x / 10 powr (d / 10))
              \<and> double_range (dot x x / 10 powr (d / 10) / dot nn nn) \<longrightarrow>
                (\<exists>r. fst (additive_noise x n (Some (Db d)) g) = Inr r
                   \<and> r = map (\<lambda>v. sqrt (dot x x / (10 powr (d / 10)) / dot nn nn) * v) nn
                   \<and> (dot x x \<noteq> 0 \<longrightarrow> dot r r / dot x x = 10 powr (- d / 10))))"
proof -
  define nn where "nn = (if length x > length n
                    then take (length x) (tile n (nat \<lceil>real (length x) / real (length n)\<rceil>))
                    else take (length x) n)"
  define r where "r = map (\<lambda>v. sqrt (dot x x / (10 powr (d / 10)) / dot nn nn) * v) nn"
  have len: "length nn = length x"
    unfolding nn_def by (rule adjusted_noise(1) [OF assms(2)])
  have nth: "\<forall>i<length x. nn ! i = n ! (i mod length n)"
    unfolding nn_def by (rule adjusted_noise(2) [OF assms(2)])
  from len assms(1) have nonempty: "nn \<noteq> []" by auto
  have ovf: "2 ^ 1025 \<le> 10 powr (d / 10) \<longrightarrow>
               fst (additive_noise x n (Some (Db d)) g) = Inl OverflowError"
  proof
    assume "2 ^ 1025 \<le> 10 powr (d / 10)"
    then have "DBL_OVERFLOW \<le> 10 powr (d / 10)" by (rule beyond_overflow)
    with assms(2) show "fst (additive_noise x n (Some (Db d)) g) = Inl OverflowError"
      by (rule additive_noise_overflow)
  qed
  have nonfin: "10 powr (d / 10) \<le> 2 ^ 1000 \<and> dot nn nn = 0 \<longrightarrow>
                  fst (additive_noise x n (Some (Db d)) g) = Inl NonFinite"
  proof
    assume h: "10 powr (d / 10) \<le> 2 ^ 1000 \<and> dot nn nn = 0"
    then have "10 powr (d / 10) \<le> 2 ^ 1000" and z: "dot nn nn = 0" by simp_all
    then have p: "10 powr (d / 10) < DBL_OVERFLOW" by (simp only: below_overflow)
    show "fst (additive_noise x n (Some (Db d)) g) = Inl NonFinite"
      by (rule additive_noise_nonfinite [OF assms(2) nn_def nonempty z p])
  qed
  have fin: "dot nn nn \<noteq> 0 \<and> double_range (dot x x) \<and> double_range (dot nn nn)
              \<and> double_range (10 powr (d / 10)) \<and> double_range (dot x x / 10 powr (d / 10))
              \<and> double_range (dot x x / 10 powr (d / 10) / dot nn nn) \<longrightarrow>
             (\<exists>r. fst (additive_noise x n (Some (Db d)) g) = Inr r
                   \<and> r = map (\<lambda>v. sqrt (dot x x / (10 powr (d / 10)) / dot nn nn) * v) nn
                   \<and> (dot x x \<noteq> 0 \<longrightarrow> dot r r / dot x x = 10 powr (- d / 10)))"
  proof
    assume h: "dot nn nn \<noteq> 0 \<and> double_range (dot x x) \<and> double_range (dot nn nn)
              \<and> double_range (10 powr (d / 10)) \<and> double_range (dot x x / 10 powr (d / 10))
              \<and> double_range (dot x x / 10 powr (d / 10) / dot nn nn)"
    from h have ne: "dot nn nn \<noteq> 0" and pr: "double_range (10 powr (d / 10))" by simp_all
    from pr have p: "10 powr (d / 10) < DBL_OVERFLOW" by (rule double_range_no_overflow)
    have res: "fst (additive_noise x n (Some (Db d)) g) = Inr r"
      unfolding r_def by (rule additive_noise_finite [OF assms(2) nn_def ne p])
    have ratio: "dot r r / dot x x = 10 powr (- d / 10)" if xe: "dot x x \<noteq> 0"
    proof -
      from ne dot_self_nonneg [of nn] have np: "0 < dot nn nn" by simp
      have pp: "0 < (10::real) powr (d / 10)" by simp
      have "dot r r = (sqrt (dot x x / (10 powr (d / 10)) / dot nn nn))\<^sup>2 * dot nn nn"
        unfolding r_def by (rule dot_scaled)
      also have "\<dots> = dot x x / (10 powr (d / 10))"
        by (rule scaled_energy [OF np dot_self_nonneg pp])
      finally have "dot r r / dot x x = 1 / (10 powr (d / 10))" using xe by simp
      also have "\<dots> = 10 powr (- (d / 10))" by (simp add: powr_minus inverse_eq_divide)
      finally show ?thesis by simp
    qed
    from res ratio
    show "\<exists>r. fst (additive_noise x n (Some (Db d)) g) = Inr r
                   \<and> r = map (\<lambda>v. sqrt (dot x x / (10 powr (d / 10)) / dot nn nn) * v) nn
                   \<and> (dot x x \<noteq> 0 \<longrightarrow> dot r r / dot x x = 10 powr (- d / 10))"
      unfolding r_def by blast
  qed
  show ?thesis
    by (rule exI [of _ nn]) (intro conjI nn_def len nth ovf nonfin fin)
qed

text \<open>
  The witness scales the noise \<open>[1]\<close>, tiled to \<open>[1, 1]\<close>, under the signal \<open>[3, 4]\<close> at
  0 dB; the same call with the noise \<open>[0]\<close> holds no finite sample, and at 3100 dB it
  raises OverflowError.
\<close>

theorem additive_noise_scales_to_snr_witness:
  "[3, 4] \<noteq> ([]::real list) \<and> [1] \<noteq> ([]::real list) \<and> dot [1, 1] [1, 1] \<noteq> 0
   \<and> double_range (dot [3, 4] [3, 4]) \<and> double_range (dot [1, 1] [1, 1])
   \<and> double_range (10 powr (0 / 10)) \<and> double_range (dot [3, 4] [3, 4] / 10 powr (0 / 10))
   \<and> double_range (dot [3, 4] [3, 4] / 10 powr (0 / 10) / dot [1, 1] [1, 1])
   \<and> dot [3, 4] [3, 4] \<noteq> 0
   \<and> (\<exists>r. fst (additive_noise [3, 4] [1] (Some (Db 0)) (\<lambda>i. 0)) = Inr r
          \<and> r = map (\<lambda>v. sqrt (dot [3, 4] [3, 4] / (10 powr (0 / 10)) / dot [1, 1] [1, 1]) * v) [1, 1]
          \<and> dot r r / dot [3, 4] [3, 4] = 1)
   \<and> [0] \<noteq> ([]::real list) \<and> (10::real) powr (0 / 10) \<le> 2 ^ 1000 \<and> dot [0, 0] [0, 0] = 0
   \<and> fst (additive_noise [3, 4] [0] (Some (Db 0)) (\<lambda>i. 0)) = Inl NonFinite
   \<and> (2::real) ^ 1025 \<le> 10 powr (3100 / 10)
   \<and> fst (additive_noise [3, 4] [1] (Some (Db 3100)) (\<lambda>i. 0)) = Inl OverflowError"
proof -
  have a: "[3, 4] \<noteq> ([]::real list)" and b: "[1] \<noteq> ([]::real list)"
    and b0: "[0] \<noteq> ([]::real list)" by simp_all
  have c: "dot [1, 1] [1, 1] \<noteq> 0" and e: "dot [3, 4] [3, 4] \<noteq> 0"
    and z: "dot [0, 0] [0, 0] = 0" by (simp_all add: dot_def)
  have r1: "double_range (dot [3, 4] [3, 4])" and r2: "double_range (dot [1, 1] [1, 1])"
    and r3: "double_range (10 powr (0 / 10))"
    and r4: "double_range (dot [3, 4] [3, 4] / 10 powr (0 / 10))"
    and r5: "double_range (dot [3, 4] [3, 4] / 10 powr (0 / 10) / dot [1, 1] [1, 1])"
    by (simp_all add: double_range_def dot_def)
  have p0: "(10::real) powr (0 / 10) \<le> 2 ^ 1000" by simp
  have "(10::real) powr (3100 / 10) = 10 ^ 310" by (simp add: powr_realpow [symmetric])
  then have big: "(2::real) ^ 1025 \<le> 10 powr (3100 / 10)" by simp
  have adj: "(if length [3, 4::real] > length [1::real]
              then take (length [3, 4::real])
                     (tile [1] (nat \<lceil>real (length [3, 4::real]) / real (length [1::real])\<rceil>))
              else take (length [3, 4::real]) [1]) = [1, 1::real]"
    by (simp add: tile_def eval_nat_numeral)
  have adj0: "(if length [3, 4::real] > length [0::real]
              then take (length [3, 4::real])
                     (tile [0] (nat \<lceil>real (length [3, 4::real]) / real (length [0::real])\<rceil>))
              else take (length [3, 4::real]) [0]) = [0, 0::real]"
    by (simp add: tile_def eval_nat_numeral)
  from additive_noise_scales_to_snr [OF a b, of 0 "\<lambda>i. 0"]
  obtain nn where 1: "nn = (if length [3, 4::real] > length [1::real]
              then take (length [3, 4::real])
                     (tile [1] (nat \<lceil>real (length [3, 4::real]) / real (length [1::real])\<rceil>))
              else take (length [3, 4::real]) [1])"
    and 2: "dot nn nn \<noteq> 0 \<and> double_range (dot [3, 4] [3, 4]) \<and> double_range (dot nn nn)
              \<and> double_range (10 powr (0 / 10)) \<and> double_range (dot [3, 4] [3, 4] / 10 powr (0 / 10))
              \<and> double_range (dot [3, 4] [3, 4] / 10 powr (0 / 10) / dot nn nn) \<longrightarrow>
                (\<exists>r. fst (additive_noise [3, 4] [1] (Some (Db 0)) (\<lambda>i. 0)) = Inr r
                   \<and> r = map (\<lambda>v. sqrt (dot [3, 4] [3, 4] / (10 powr (0 / 10)) / dot nn nn) * v) nn
                   \<and> (dot [3, 4] [3, 4] \<noteq> 0 \<longrightarrow> dot r r / dot [3, 4] [3, 4] = 10 powr (- 0 / 10)))"
    by blast
  from 1 adj have nn: "nn = [1, 1]" by (simp only:)
  from 2 [unfolded nn] c r1 r2 r3 r4 r5
  have "\<exists>r. fst (additive_noise [3, 4] [1] (Some (Db 0)) (\<lambda>i. 0)) = Inr r
          \<and> r = map (\<lambda>v. sqrt (dot [3, 4] [3, 4] / (10 powr (0 / 10)) / dot [1, 1] [1, 1]) * v) [1, 1]
          \<and> (dot [3, 4] [3, 4] \<noteq> 0 \<longrightarrow> dot r r / dot [3, 4] [3, 4] = 10 powr (- 0 / 10))"
    by (simp only: simp_thms)
  with e have fin: "\<exists>r. fst (additive_noise [3, 4] [1] (Some (Db 0)) (\<lambda>i. 0)) = Inr r
          \<and> r = map (\<lambda>v. sqrt (dot [3, 4] [3, 4] / (10 powr (0 / 10)) / dot [1, 1] [1, 1]) * v) [1, 1]
          \<and> dot r r / dot [3, 4] [3, 4] = 1"
    by simp
  from additive_noise_scales_to_snr [OF a b0, of 0 "\<lambda>i. 0"]
  obtain nn0 where 3: "nn0 = (if length [3, 4::real] > length [0::real]
              then take (length [3, 4::real])
                     (tile [0] (nat \<lceil>real (length [3, 4::real]) / real (length [0::real])\<rceil>))
              else take (length [3, 4::real]) [0])"
    and 4: "(10::real) powr (0 / 10) \<le> 2 ^ 1000 \<and> dot nn0 nn0 = 0 \<longrightarrow>
                fst (additive_noise [3, 4] [0] (Some (Db 0)) (\<lambda>i. 0)) = Inl NonFinite"
    by blast
  from 3 adj0 have nn0: "nn0 = [0, 0]" by (simp only:)
  from 4 [unfolded nn0] p0 z
  have nonfin: "fst (additive_noise [3, 4] [0] (Some (Db 0)) (\<lambda>i. 0)) = Inl NonFinite"
    by (simp only: simp_thms)
  from additive_noise_scales_to_snr [OF a b, of 3100 "\<lambda>i. 0"]
  have "(2::real) ^ 1025 \<le> 10 powr (3100 / 10) \<longrightarrow>
          fst (additive_noise [3, 4] [1] (Some (Db 3100)) (\<lambda>i. 0)) = Inl OverflowError"
    by blast
  with big have ovf: "fst (additive_noise [3, 4] [1] (Some (Db 3100)) (\<lambda>i. 0)) = Inl OverflowError"
    by (simp only: simp_thms)
  from a b c r1 r2 r3 r4 r5 e fin b0 p0 z nonfin big ovf show ?thesis by (intro conjI)
qed

subsection \<open>The levels of quantize\<close>

lemma collect_all_Inr: "collect (map Inr vs) = Inr vs"
  by (induction vs) simp_all

lemma linspace_edges:
  assumes "0 < N"
  shows "linspace (- 1) 1 (N + 1) True = map (\<lambda>k. - 1 + real k * (2 / real N)) [0..<N] @ [1]"
proof -
  from assms have "- 1 + real N * (2 / real N) = (1::real)" by simp
  then show ?thesis by (simp add: linspace_def Let_def)
qed

lemma edges_append_nth:
  assumes "0 < N" and "j \<le> N"
  shows "(map (\<lambda>k. - 1 + real k * (2 / real N)) [0..<N] @ [1]) ! j = - 1 + real j * (2 / real N)"
proof (cases "j < N")
  case True
  then show ?thesis by (simp add: nth_append)
next
  case False
  with assms have "j = N" by simp
  with assms(1) show ?thesis by (simp add: nth_append)
qed

lemma levels_eq:
  assumes "0 < N"
  shows "map2 (\<lambda>lo hi. (lo + hi) / 2)
           (butlast (map (\<lambda>k. - 1 + real k * (2 / real N)) [0..<N] @ [1]))
           (tl (map (\<lambda>k. - 1 + real k * (2 / real N)) [0..<N] @ [1]))
         = map (\<lambda>k. - 1 + (2 * real k + 1) / real N) [0..<N]"
proof (rule nth_equalityI)
  show "length (map2 (\<lambda>lo hi. (lo + hi) / 2)
           (butlast (map (\<lambda>k. - 1 + real k * (2 / real N)) [0..<N] @ [1]))
           (tl (map (\<lambda>k. - 1 + real k * (2 / real N)) [0..<N] @ [1])))
        = length (map (\<lambda>k. - 1 + (2 * real k + 1) / real N) [0..<N])"
    by simp
next
  fix i
  assume "i < length (map2 (\<lambda>lo hi. (lo + hi) / 2)
           (butlast (map (\<lambda>k. - 1 + real k * (2 / real N)) [0..<N] @ [1]))
           (tl (map (\<lambda>k. - 1 + real k * (2 / real N)) [0..<N] @ [1])))"
  then have i: "i < N" by simp
  let ?E = "map (\<lambda>k. - 1 + real k * (2 / real N)) [0..<N]"
  have lo: "butlast (?E @ [1]) ! i = - 1 + real i * (2 / real N)"
    using i by simp
  have "tl (?E @ [1]) ! i = (?E @ [1]) ! Suc i"
    using i by (intro nth_tl) simp
  also have "\<dots> = - 1 + real (Suc i) * (2 / real N)"
    using i by (intro edges_append_nth [OF assms]) simp
  finally have hi: "tl (?E @ [1]) ! i = - 1 + real (Suc i) * (2 / real N)" .
  have "map2 (\<lambda>lo hi. (lo + hi) / 2) (butlast (?E @ [1])) (tl (?E @ [1])) ! i
        = (butlast (?E @ [1]) ! i + tl (?E @ [1]) ! i) / 2"
    using i by simp
  also have "\<dots> = - 1 + (2 * real i + 1) / real N"
    unfolding lo hi using assms by (simp add: field_simps)
  finally show "map2 (\<lambda>lo hi. (lo + hi) / 2) (butlast (?E @ [1])) (tl (?E @ [1])) ! i
        = map (\<lambda>k. - 1 + (2 * real k + 1) / real N) [0..<N] ! i"
    using i by simp
qed


lemma edges_last_update:
  "(E @ [1::real]) [length (E @ [1::real]) - 1 := c] = E @ [c]"
  by simp

lemma digitize_edges:
  assumes "v \<le> 1"
  shows "digitize v (E @ [1.01]) = length (filter (\<lambda>b. b \<le> v) E)"
  using assms by (simp add: digitize_def)

lemma count_edges_bounds:
  assumes "0 < N" and "- 1 \<le> v"
  shows "1 \<le> length (filter (\<lambda>b. b \<le> v) (map (\<lambda>k. - 1 + real k * (2 / real N)) [0..<N]))"
    and "length (filter (\<lambda>b. b \<le> v) (map (\<lambda>k. - 1 + real k * (2 / real N)) [0..<N])) \<le> N"
proof -
  let ?E = "map (\<lambda>k. - 1 + real k * (2 / real N)) [0..<N]"
  from assms(1) have "?E ! 0 \<in> set ?E" by (intro nth_mem) simp
  moreover from assms(1) have "?E ! 0 = - 1" by simp
  ultimately have "- 1 \<in> set (filter (\<lambda>b. b \<le> v) ?E)" using assms(2) by simp
  then have "0 < length (filter (\<lambda>b. b \<le> v) ?E)" by (rule length_pos_if_in_set)
  then show "1 \<le> length (filter (\<lambda>b. b \<le> v) ?E)" by linarith
  have "length (filter (\<lambda>b. b \<le> v) ?E) \<le> length ?E" by (rule length_filter_le)
  then show "length (filter (\<lambda>b. b \<le> v) ?E) \<le> N" by simp
qed

lemma count_edges_top:
  assumes "0 < N"
  shows "length (filter (\<lambda>b. b \<le> 1) (map (\<lambda>k. - 1 + real k * (2 / real N)) [0..<N])) = N"
proof -
  have "\<forall>b\<in>set (map (\<lambda>k. - 1 + real k * (2 / real N)) [0..<N]). b \<le> 1"
  proof
    fix b assume "b \<in> set (map (\<lambda>k. - 1 + real k * (2 / real N)) [0..<N])"
    then obtain k where k: "k < N" and b: "b = - 1 + real k * (2 / real N)" by auto
    from k assms have "real k * (2 / real N) \<le> 2" by (simp add: field_simps)
    then show "b \<le> 1" by (simp add: b)
  qed
  then have "filter (\<lambda>b. b \<le> 1) (map (\<lambda>k. - 1 + real k * (2 / real N)) [0..<N])
             = map (\<lambda>k. - 1 + real k * (2 / real N)) [0..<N]"
    by (simp only: filter_id_conv)
  then show ?thesis by simp
qed

text \<open>The level a normalised sample is mapped to: the midpoint below its count of edges.\<close>

lemma quantize_level:
  assumes "0 < N" and "- 1 \<le> v" and "v \<le> 1"
  defines "B \<equiv> map (\<lambda>k. - 1 + real k * (2 / real N)) [0..<N] @ [1.01]"
  shows "py_index (map (\<lambda>k. - 1 + (2 * real k + 1) / real N) [0..<N]) (int (digitize v B) - 1)
           = Inr (- 1 + (2 * real (digitize v B - 1) + 1) / real N)"
    and "digitize v B - 1 < N"
    and "v = 1 \<Longrightarrow> digitize v B - 1 = N - 1"
proof -
  let ?E = "map (\<lambda>k. - 1 + real k * (2 / real N)) [0..<N]"
  define c where "c = length (filter (\<lambda>b. b \<le> v) ?E)"
  have d: "digitize v B = c"
    unfolding c_def B_def by (rule digitize_edges [OF assms(3)])
  from count_edges_bounds [OF assms(1,2)] have c1: "1 \<le> c" and cN: "c \<le> N"
    by (simp_all add: c_def)
  then have k: "c - 1 < N" by simp
  from c1 have idx: "int c - 1 = int (c - 1)" by simp
  have "py_index (map (\<lambda>k. - 1 + (2 * real k + 1) / real N) [0..<N]) (int (c - 1))
        = Inr (- 1 + (2 * real (c - 1) + 1) / real N)"
    using k by (simp add: py_index_def Let_def)
  then show "py_index (map (\<lambda>k. - 1 + (2 * real k + 1) / real N) [0..<N]) (int (digitize v B) - 1)
           = Inr (- 1 + (2 * real (digitize v B - 1) + 1) / real N)"
    by (simp only: d idx)
  from k show "digitize v B - 1 < N" by (simp only: d)
  show "digitize v B - 1 = N - 1" if "v = 1"
  proof -
    have "c = N" unfolding c_def that by (rule count_edges_top [OF assms(1)])
    then show ?thesis by (simp only: d)
  qed
qed

lemma quantize_unfolded:
  assumes "st a = x" and "x \<noteq> []" and "peak x \<noteq> 0"
  shows "snd (quantize st a n) =
    collect (map (\<lambda>v. py_index (map (\<lambda>k. - 1 + (2 * real k + 1) / real (2 ^ n :: nat)) [0..<2 ^ n])
                        (int (digitize v (map (\<lambda>k. - 1 + real k * (2 / real (2 ^ n :: nat))) [0..<2 ^ n]
                                          @ [1.01])) - 1))
                 (map (\<lambda>v. v / peak x) x))"
proof -
  have pos: "0 < (2 ^ n :: nat)" by simp
  have ls: "linspace (- 1) 1 (2 ^ n + 1) True
            = map (\<lambda>k. - 1 + real k * (2 / real (2 ^ n :: nat))) [0..<2 ^ n] @ [1]"
    by (rule linspace_edges [OF pos])
  define B where "B = linspace (- 1) 1 (2 ^ n + 1) True"
  define Q where "Q = map2 (\<lambda>lo hi. (lo + hi) / 2) (butlast B) (tl B)"
  define B' where "B' = B [length B - 1 := 1.01]"
  from assms have "snd (quantize st a n) =
     collect (map (\<lambda>c. py_index Q (int (digitize_cell c B') - 1)) (map (\<lambda>v. Val (v / peak x)) x))"
    unfolding B'_def Q_def B_def by (simp add: quantize_def Let_def)
  also have "map (\<lambda>c. py_index Q (int (digitize_cell c B') - 1)) (map (\<lambda>v. Val (v / peak x)) x)
             = map (\<lambda>v. py_index Q (int (digitize v B') - 1)) (map (\<lambda>v. v / peak x) x)"
    by (simp add: digitize_cell_def)
  finally show ?thesis
    unfolding B'_def Q_def B_def by (simp only: ls levels_eq [OF pos] edges_last_update)
qed

lemma normalised_in_range:
  assumes "x \<noteq> []" and "peak x \<noteq> 0" and "v \<in> set (map (\<lambda>v. v / peak x) x)"
  shows "- 1 \<le> v \<and> v \<le> 1"
proof -
  from assms(3) obtain u where u: "u \<in> set x" and v: "v = u / peak x" by auto
  from assms(1,2) peak_nonneg [of x] have pos: "0 < peak x" by simp
  from peak_ge [OF u] pos have "\<bar>u / peak x\<bar> \<le> 1" by simp
  then have "u / peak x \<le> 1" and "- (u / peak x) \<le> 1" by (simp_all only: abs_le_iff)
  then show ?thesis unfolding v by linarith
qed

lemma level_in_range:
  assumes "k < N"
  shows "- 1 \<le> - 1 + (2 * real k + 1) / real N" and "- 1 + (2 * real k + 1) / real N \<le> 1"
proof -
  from assms have pos: "0 < real N" by simp
  then have "0 \<le> (2 * real k + 1) / real N" by simp
  then show "- 1 \<le> - 1 + (2 * real k + 1) / real N" by linarith
  from assms have "2 * real k + 1 \<le> 2 * real N" by linarith
  with pos have "(2 * real k + 1) / real N \<le> 2" by (simp add: pos_divide_le_eq)
  then show "- 1 + (2 * real k + 1) / real N \<le> 1" by linarith
qed

lemma top_level:
  assumes "0 < N"
  shows "- 1 + (2 * real (N - 1) + 1) / real N = 1 - 1 / real N"
proof -
  from assms have "real (N - 1) = real N - 1" by simp
  then have "2 * real (N - 1) + 1 = 2 * real N - 1" by simp
  moreover from assms have "(2 * real N - 1) / real N = 2 - 1 / real N"
    by (simp add: diff_divide_distrib)
  ultimately show ?thesis by simp
qed

text \<open>
  Claim C7. For a non-empty signal with non-zero peak amplitude and any bit count \<open>n\<close>,
  quantize returns an output of the length of the signal; every output value is one of the
  \<open>2 ^ n\<close> midpoints \<open>- 1 + (2 k + 1) / 2 ^ n\<close>, \<open>k < 2 ^ n\<close>, of the equal-width bins of
  \<open>[- 1, 1]\<close>, so the output has at most \<open>2 ^ n\<close> distinct values, all within \<open>[- 1, 1]\<close>; and
  a sample equal to the peak is mapped to the midpoint \<open>1 - 1 / 2 ^ n\<close> of the uppermost bin.
\<close>

theorem quantize_levels:
  assumes "st a = x" and "x \<noteq> []" and "peak x \<noteq> 0"
  shows "\<exists>out. snd (quantize st a n) = Inr out \<and> length out = length x
           \<and> (\<forall>i<length x. \<exists>k<2 ^ n. out ! i = - 1 + (2 * real k + 1) / 2 ^ n)
           \<and> (\<forall>i<length x. - 1 \<le> out ! i \<and> out ! i \<le> 1)
           \<and> card (set out) \<le> 2 ^ n
           \<and> (\<forall>i<length x. x ! i = peak x \<longrightarrow> out ! i = 1 - 1 / 2 ^ n)"
proof -
  define N :: nat where "N = 2 ^ n"
  have pos: "0 < N" by (simp add: N_def)
  have rN: "real N = 2 ^ n" by (simp add: N_def)
  define B where "B = map (\<lambda>k. - 1 + real k * (2 / real N)) [0..<N] @ [1.01]"
  define L where "L = map (\<lambda>k. - 1 + (2 * real k + 1) / real N) [0..<N]"
  define idx where "idx v = digitize v B - 1" for v
  define x' where "x' = map (\<lambda>v. v / peak x) x"
  define out where "out = map (\<lambda>v. - 1 + (2 * real (idx v) + 1) / real N) x'"
  have inr: "- 1 \<le> v \<and> v \<le> 1" if "v \<in> set x'" for v
    using normalised_in_range [OF assms(2,3)] that unfolding x'_def by blast
  have lev: "py_index L (int (digitize v B) - 1) = Inr (- 1 + (2 * real (idx v) + 1) / real N)"
    if "v \<in> set x'" for v
    unfolding L_def B_def idx_def using inr [OF that] by (intro quantize_level(1) [OF pos]) simp_all
  have idx_lt: "idx v < N" if "v \<in> set x'" for v
    unfolding B_def idx_def using inr [OF that] by (intro quantize_level(2) [OF pos]) simp_all
  have idx_top: "idx 1 = N - 1"
    unfolding B_def idx_def by (rule quantize_level(3) [OF pos]) simp_all
  have "snd (quantize st a n) = collect (map (\<lambda>v. py_index L (int (digitize v B) - 1)) x')"
    unfolding L_def B_def x'_def N_def by (rule quantize_unfolded [of st a x n, OF assms])
  also have "map (\<lambda>v. py_index L (int (digitize v B) - 1)) x' = map Inr out"
    unfolding out_def map_map comp_def by (rule map_cong [OF refl]) (rule lev)
  finally have res: "snd (quantize st a n) = Inr out"
    by (simp only: collect_all_Inr)
  have len: "length out = length x" by (simp add: out_def x'_def)
  have nth: "out ! i = - 1 + (2 * real (idx (x' ! i)) + 1) / real N" if "i < length x" for i
    using that by (simp add: out_def x'_def)
  have mem: "x' ! i \<in> set x'" if "i < length x" for i
  proof -
    from that have "i < length x'" by (simp add: x'_def)
    then show ?thesis by (rule nth_mem)
  qed
  have levels: "\<forall>i<length x. \<exists>k<2 ^ n. out ! i = - 1 + (2 * real k + 1) / 2 ^ n"
  proof (intro allI impI)
    fix i assume i: "i < length x"
    from idx_lt [OF mem [OF i]] have "idx (x' ! i) < 2 ^ n" by (simp only: N_def)
    moreover from nth [OF i] have "out ! i = - 1 + (2 * real (idx (x' ! i)) + 1) / 2 ^ n"
      by (simp only: rN)
    ultimately show "\<exists>k<2 ^ n. out ! i = - 1 + (2 * real k + 1) / 2 ^ n" by blast
  qed
  have range: "\<forall>i<length x. - 1 \<le> out ! i \<and> out ! i \<le> 1"
  proof (intro allI impI)
    fix i assume i: "i < length x"
    from level_in_range [OF idx_lt [OF mem [OF i]]] show "- 1 \<le> out ! i \<and> out ! i \<le> 1"
      by (simp only: nth [OF i] simp_thms)
  qed
  have card: "card (set out) \<le> 2 ^ n"
  proof -
    have "set out \<subseteq> (\<lambda>k. - 1 + (2 * real k + 1) / real N) ` {..<N}"
    proof
      fix y assume "y \<in> set out"
      then obtain v where v: "v \<in> set x'" and y: "y = - 1 + (2 * real (idx v) + 1) / real N"
        unfolding out_def by auto
      from idx_lt [OF v] have "idx v \<in> {..<N}" by simp
      then show "y \<in> (\<lambda>k. - 1 + (2 * real k + 1) / real N) ` {..<N}"
        unfolding y by (rule imageI)
    qed
    then have "card (set out) \<le> card ((\<lambda>k. - 1 + (2 * real k + 1) / real N) ` {..<N})"
      by (intro card_mono) simp_all
    also have "\<dots> \<le> card {..<N}" by (intro card_image_le) simp
    finally show ?thesis by (simp add: N_def)
  qed
  have top: "\<forall>i<length x. x ! i = peak x \<longrightarrow> out ! i = 1 - 1 / 2 ^ n"
  proof (intro allI impI)
    fix i assume i: "i < length x" and p: "x ! i = peak x"
    from i p assms(3) have "x' ! i = 1" by (simp add: x'_def)
    with nth [OF i] idx_top have "out ! i = - 1 + (2 * real (N - 1) + 1) / real N" by simp
    then have "out ! i = 1 - 1 / real N" by (simp only: top_level [OF pos])
    then show "out ! i = 1 - 1 / 2 ^ n" by (simp only: rN)
  qed
  show ?thesis
    by (rule exI [of _ out]) (intro conjI res len levels range card top)
qed

theorem quantize_levels_witness:
  "(\<lambda>a. [2, 1]) (0::nat) = [2, 1::real] \<and> [2, 1] \<noteq> ([]::real list) \<and> peak [2, 1] \<noteq> 0
   \<and> (\<exists>out. snd (quantize (\<lambda>a. [2, 1]) 0 1) = Inr out \<and> length out = 2
          \<and> out ! 0 = 1 / 2 \<and> card (set out) \<le> 2)"
proof -
  have pk: "peak [2, 1] = 2" by (simp add: peak_def)
  have a: "(\<lambda>a. [2, 1]) (0::nat) = [2, 1::real]" by simp
  have b: "[2, 1] \<noteq> ([]::real list)" by simp
  have c: "peak [2, 1] \<noteq> 0" by (simp add: pk)
  from quantize_levels [of "\<lambda>a. [2, 1]" 0 "[2, 1]" 1, OF a b c]
  obtain out where res: "snd (quantize (\<lambda>a. [2, 1]) 0 1) = Inr out"
    and len: "length out = length [2, 1::real]"
    and card: "card (set out) \<le> 2 ^ 1"
    and top: "\<forall>i<length [2, 1::real]. [2, 1] ! i = peak [2, 1] \<longrightarrow> out ! i = 1 - 1 / 2 ^ 1"
    by (elim exE conjE)
  from len have 1: "length out = 2" by simp
  from top have "[2, 1] ! 0 = peak [2, 1] \<longrightarrow> out ! 0 = 1 - 1 / 2 ^ 1" by simp
  then have 2: "out ! 0 = 1 / 2" by (simp add: pk)
  from card have 3: "card (set out) \<le> 2" by simp
  from res 1 2 3 have "\<exists>out. snd (quantize (\<lambda>a. [2, 1]) 0 1) = Inr out \<and> length out = 2
          \<and> out ! 0 = 1 / 2 \<and> card (set out) \<le> 2"
    by (intro exI [of _ out] conjI)
  with a b c show ?thesis by (intro conjI)
qed

end
